theory Spec2Isabelle
  imports Main "HOL-Library.Word"
begin

section \<open>C integers and characters\<close>

text \<open>
  The harness computes with C \<open>int\<close> (32 bits, two's complement), \<open>unsigned int\<close>
  (32 bits) and \<open>unsigned long\<close> (64 bits).  Values are kept as HOL integers, and the
  reduction that a machine operation performs is written out wherever a result can leave
  the range of its type: \<open>u32\<close> and \<open>u64\<close> for the unsigned types, and \<open>s32\<close> for
  \<open>int\<close>, whose overflow ISO C leaves undefined and the usual implementations wrap
  around.  Where a loop condition keeps a counter in range the increment is exact.
\<close>

definition INT_MAX :: int where
  "INT_MAX = 2147483647"

definition s32 :: "int \<Rightarrow> int" where
  "s32 x = (x + 2147483648) mod 4294967296 - 2147483648"

definition u32 :: "int \<Rightarrow> int" where
  "u32 x = x mod 4294967296"

definition u64 :: "int \<Rightarrow> int" where
  "u64 x = x mod 18446744073709551616"

text \<open>Character classes of \<open>ctype.h\<close> in the C locale, on the byte value of the character.\<close>

definition isdigit :: "char \<Rightarrow> bool" where
  "isdigit c = (48 \<le> (of_char c :: nat) \<and> (of_char c :: nat) \<le> 57)"

definition isalpha :: "char \<Rightarrow> bool" where
  "isalpha c = ((65 \<le> (of_char c :: nat) \<and> (of_char c :: nat) \<le> 90) \<or>
                (97 \<le> (of_char c :: nat) \<and> (of_char c :: nat) \<le> 122))"

definition isspace :: "char \<Rightarrow> bool" where
  "isspace c = ((of_char c :: nat) = 32 \<or> (9 \<le> (of_char c :: nat) \<and> (of_char c :: nat) \<le> 13))"

definition digit_val :: "char \<Rightarrow> int" where
  "digit_val c = int (of_char c) - 48"

text \<open>
  \<open>atoi\<close> of the C library: leading white space, an optional sign, then the longest run
  of decimal digits.  The harness only calls it on a buffer of five characters.
\<close>

fun atoi_digits :: "string \<Rightarrow> int \<Rightarrow> int" where
  "atoi_digits [] acc = acc"
| "atoi_digits (c # cs) acc =
     (if isdigit c then atoi_digits cs (acc * 10 + digit_val c) else acc)"

definition atoi :: "string \<Rightarrow> int" where
  "atoi s =
     (case dropWhile isspace s of
        [] \<Rightarrow> 0
      | c # cs \<Rightarrow>
          if c = CHR ''-'' then - atoi_digits cs 0
          else if c = CHR ''+'' then atoi_digits cs 0
          else atoi_digits (c # cs) 0)"

section \<open>Constants of the harness\<close>

text \<open>
  Modelled from the spec: \<open>MAX_CLUE_VALUE\<close> is a macro of \<open>keen_internal.h\<close>, which is
  not among the sources; the specification gives its value as 99999.
\<close>

definition MAX_CLUE_VALUE :: int where
  "MAX_CLUE_VALUE = 99999"

text \<open>The retry budget of a sample, \<open>#define MAX_ATTEMPTS 25\<close>.\<close>

definition MAX_ATTEMPTS :: int where
  "MAX_ATTEMPTS = 25"

section \<open>The descriptor validators\<close>

text \<open>
  A C string is the list of its characters before the terminating NUL.  \<open>strchr desc ';'\<close>
  yields the position of the first semicolon: the model returns the characters before
  it (where \<open>p < sep\<close>) and the characters after it (from \<open>sep + 1\<close>), or \<open>None\<close> for
  the null pointer.
\<close>

definition strchr_semi :: "string \<Rightarrow> (string \<times> string) option" where
  "strchr_semi desc =
     (if CHR '';'' \<in> set desc
      then Some (takeWhile (\<lambda>c. c \<noteq> CHR '';'') desc, tl (dropWhile (\<lambda>c. c \<noteq> CHR '';'') desc))
      else None)"

subsection \<open>\<open>clue_values_within_cap\<close>\<close>

text \<open>
  The function returns \<open>false\<close> at five places and \<open>true\<close> at one; the model names the
  place that was taken, and the boolean result is whether it was the \<open>return true\<close>.
\<close>

datatype clue_exit =
    Clues_Ok
  | No_Delimiter
  | Op_Not_Alpha
  | Short_Field
  | Over_Cap
  | Bad_Trailer

function clue_scan :: "string \<Rightarrow> clue_exit" where
  "clue_scan [] = Clues_Ok"
| "clue_scan (op # p) =
     (if \<not> isalpha op then Op_Not_Alpha
      else if length p < 5 then Short_Field
      else if atoi (take 5 p) > MAX_CLUE_VALUE then Over_Cap
      else (case drop 5 p of
              [] \<Rightarrow> Clues_Ok
            | c # p' \<Rightarrow> if c = CHR '','' then clue_scan p' else Bad_Trailer))"
  by pat_completeness auto
termination
proof (relation "measure length")
  show "wf (measure length)" by simp
next
  fix op :: char and p :: string and c :: char and p' :: string
  assume "drop 5 p = c # p'"
  then have "length (drop 5 p) = Suc (length p')" by simp
  then show "(p', op # p) \<in> measure length" by simp
qed

definition clue_values_exit :: "string \<Rightarrow> clue_exit" where
  "clue_values_exit desc =
     (case strchr_semi desc of
        None \<Rightarrow> No_Delimiter
      | Some (roots_field, clues_field) \<Rightarrow> clue_scan clues_field)"

definition clue_values_within_cap :: "string \<Rightarrow> bool" where
  "clue_values_within_cap desc = (clue_values_exit desc = Clues_Ok)"

subsection \<open>\<open>parse_root_indices\<close>\<close>

text \<open>
  The inner \<open>while\<close> loop reads a run of digits.  Its pointer \<open>p\<close> stays below \<open>sep\<close>,
  so the model is handed the characters from \<open>p\<close> up to the semicolon.  Both \<open>val\<close> and
  \<open>digits\<close> are C \<open>int\<close>s, and a long run of digits takes \<open>val * 10 + d\<close> out of range:
  the result is reduced to 32 bits.
\<close>

fun read_digits :: "string \<Rightarrow> int \<Rightarrow> int \<Rightarrow> int \<times> int \<times> string" where
  "read_digits [] val digits = (val, digits, [])"
| "read_digits (c # p) val digits =
     (if isdigit c
      then read_digits p (s32 (val * 10 + digit_val c)) (s32 (digits + 1))
      else (val, digits, c # p))"

text \<open>
  The \<open>for\<close> loop over the cells; the first argument counts the cells still to come after
  the current one, so \<open>i < a - 1\<close> is \<open>0 < n\<close>.  When \<open>p\<close> has reached \<open>sep\<close> the
  character \<open>*p\<close> is the semicolon, which is not a comma.
\<close>

fun roots_loop :: "nat \<Rightarrow> int \<Rightarrow> string \<Rightarrow> (int list \<times> string) option" where
  "roots_loop 0 a p = Some ([], p)"
| "roots_loop (Suc n) a p =
     (case read_digits p 0 0 of
        (val, digits, p1) \<Rightarrow>
          if digits = 0 \<or> val < 0 \<or> val \<ge> a then None
          else if 0 < n then
            (case p1 of
               [] \<Rightarrow> None
             | c # p2 \<Rightarrow>
                 if c \<noteq> CHR '','' then None
                 else map_option (\<lambda>(rs, q). (val # rs, q)) (roots_loop n a p2))
          else map_option (\<lambda>(rs, q). (val # rs, q)) (roots_loop n a p1))"

text \<open>
  \<open>None\<close> is the result \<open>false\<close>; \<open>Some roots\<close> is the result \<open>true\<close> with the \<open>a\<close>
  entries written to the caller's array.  The final test \<open>p == sep\<close> holds when nothing
  is left before the semicolon.
\<close>

definition parse_root_indices :: "string \<Rightarrow> int \<Rightarrow> int list option" where
  "parse_root_indices desc w =
     (case strchr_semi desc of
        None \<Rightarrow> None
      | Some (roots_field, clues_field) \<Rightarrow>
          (let a = s32 (w * w) in
           case roots_loop (nat a) a roots_field of
             None \<Rightarrow> None
           | Some (roots, p) \<Rightarrow> if p = [] then Some roots else None))"

subsection \<open>Array accesses\<close>

text \<open>
  The remaining validators index arrays that their caller allocated.  An access outside
  the array is undefined in C; the model returns it as a fault instead of a value.
\<close>

datatype fault = Out_Of_Bounds | Div_By_Zero

subsection \<open>\<open>parse_ops\<close>\<close>

fun five_digits :: "nat \<Rightarrow> string \<Rightarrow> string option" where
  "five_digits 0 p = Some p"
| "five_digits (Suc d) [] = None"
| "five_digits (Suc d) (c # p) = (if isdigit c then five_digits d p else None)"

definition skip_comma :: "string \<Rightarrow> string" where
  "skip_comma p = (case p of [] \<Rightarrow> [] | c # p' \<Rightarrow> if c = CHR '','' then p' else c # p')"

text \<open>
  The loop over the cells \<open>i\<close>; \<open>p\<close> is the rest of the clue field and \<open>ops\<close> the
  caller's array.  \<open>Inr None\<close> is the result \<open>false\<close>.
\<close>

fun ops_loop :: "nat list \<Rightarrow> int list \<Rightarrow> string \<Rightarrow> string \<Rightarrow> fault + string option" where
  "ops_loop [] roots p ops = Inr (Some ops)"
| "ops_loop (i # cells) roots p ops =
     (if length roots \<le> i then Inl Out_Of_Bounds
      else if roots ! i \<noteq> int i then ops_loop cells roots p ops
      else
        (case p of
           [] \<Rightarrow> Inr None
         | op # p1 \<Rightarrow>
             (case five_digits 5 p1 of
                None \<Rightarrow> Inr None
              | Some p2 \<Rightarrow>
                  if length ops \<le> i then Inl Out_Of_Bounds
                  else ops_loop cells roots (skip_comma p2) (ops[i := op]))))"

definition parse_ops :: "string \<Rightarrow> int \<Rightarrow> int list \<Rightarrow> string \<Rightarrow> fault + string option" where
  "parse_ops desc w roots ops =
     (case strchr_semi desc of
        None \<Rightarrow> Inr None
      | Some (roots_field, clues_field) \<Rightarrow>
          (let a = s32 (w * w) in ops_loop [0..<nat a] roots clues_field ops))"

subsection \<open>\<open>cage_sizes_within_limit\<close>\<close>

text \<open>The second loop: \<open>counts[roots[i]]++\<close> and the running maximum.\<close>

fun tally_max :: "nat list \<Rightarrow> int list \<Rightarrow> int list \<Rightarrow> int \<Rightarrow> fault + (int list \<times> int)" where
  "tally_max [] roots counts max_cage = Inr (counts, max_cage)"
| "tally_max (i # cells) roots counts max_cage =
     (if length roots \<le> i then Inl Out_Of_Bounds
      else
        (let r = roots ! i in
         if r < 0 \<or> int (length counts) \<le> r then Inl Out_Of_Bounds
         else
           (let counts' = counts[nat r := s32 (counts ! nat r + 1)] in
            tally_max cells roots counts'
              (if counts' ! nat r > max_cage then counts' ! nat r else max_cage))))"

text \<open>
  The pointer \<open>max_seen\<close> may be null: \<open>None\<close> is the null pointer, \<open>Some v\<close> a pointer to
  a cell holding \<open>v\<close>, and the second component of the result is that cell afterwards.
\<close>

definition cage_sizes_within_limit ::
  "int list \<Rightarrow> int \<Rightarrow> int \<Rightarrow> int option \<Rightarrow> fault + (bool \<times> int option)" where
  "cage_sizes_within_limit roots a max_size max_seen =
     (case tally_max [0..<nat a] roots (replicate (nat a) 0) 0 of
        Inl f \<Rightarrow> Inl f
      | Inr (counts, max_cage) \<Rightarrow>
          Inr (max_cage \<le> max_size,
               case max_seen of None \<Rightarrow> None | Some old \<Rightarrow> Some max_cage))"

subsection \<open>\<open>mult_cages_within_limit\<close>\<close>

fun tally :: "nat list \<Rightarrow> int list \<Rightarrow> int list \<Rightarrow> fault + int list" where
  "tally [] roots counts = Inr counts"
| "tally (i # cells) roots counts =
     (if length roots \<le> i then Inl Out_Of_Bounds
      else
        (let r = roots ! i in
         if r < 0 \<or> int (length counts) \<le> r then Inl Out_Of_Bounds
         else tally cells roots (counts[nat r := s32 (counts ! nat r + 1)])))"

text \<open>
  The last loop leaves at the first multiplication cage above the cap.  The operands of
  \<open>&&\<close> are read from left to right, and only as far as needed.
\<close>

fun mul_scan :: "nat list \<Rightarrow> int list \<Rightarrow> string \<Rightarrow> int list \<Rightarrow> int \<Rightarrow> fault + bool" where
  "mul_scan [] roots ops counts max_mul = Inr True"
| "mul_scan (i # cells) roots ops counts max_mul =
     (if length roots \<le> i then Inl Out_Of_Bounds
      else if roots ! i \<noteq> int i then mul_scan cells roots ops counts max_mul
      else if length ops \<le> i then Inl Out_Of_Bounds
      else if ops ! i \<noteq> CHR ''m'' then mul_scan cells roots ops counts max_mul
      else if length counts \<le> i then Inl Out_Of_Bounds
      else if counts ! i > max_mul then Inr False
      else mul_scan cells roots ops counts max_mul)"

definition mult_cages_within_limit :: "int list \<Rightarrow> string \<Rightarrow> int \<Rightarrow> int \<Rightarrow> fault + bool" where
  "mult_cages_within_limit roots ops a max_mul =
     (case tally [0..<nat a] roots (replicate (nat a) 0) of
        Inl f \<Rightarrow> Inl f
      | Inr counts \<Rightarrow> mul_scan [0..<nat a] roots ops counts max_mul)"

subsection \<open>\<open>max_mul_cells_for_size\<close>\<close>

text \<open>
  The loop state is the pair of \<open>val\<close> (an \<open>unsigned long\<close>) and \<open>cells\<close> (an \<open>int\<close>);
  \<open>uw\<close> is \<open>(unsigned long)w\<close>.  With \<open>w = 1\<close> the condition never fails, so the loop
  is a partial function; with \<open>w = 0\<close> the division in the condition is a division by
  zero.
\<close>

definition mul_guard :: "int \<Rightarrow> int \<times> int \<Rightarrow> bool" where
  "mul_guard uw s = (fst s \<le> MAX_CLUE_VALUE div uw)"

definition mul_step :: "int \<Rightarrow> int \<times> int \<Rightarrow> int \<times> int" where
  "mul_step uw s = (u64 (fst s * uw), s32 (snd s + 1))"

partial_function (option) mul_loop :: "int \<Rightarrow> int \<times> int \<Rightarrow> (int \<times> int) option" where
  "mul_loop uw s = (if mul_guard uw s then mul_loop uw (mul_step uw s) else Some s)"

declare mul_loop.simps [code]

definition max_mul_cells_for_size :: "int \<Rightarrow> (fault + int) option" where
  "max_mul_cells_for_size w =
     (let uw = u64 w in
      if uw = 0 then Some (Inl Div_By_Zero)
      else map_option (\<lambda>s. Inr (snd s)) (mul_loop uw (1, 0)))"

subsection \<open>Cages\<close>

text \<open>
  In the words of the specification: the cage of a root value \<open>r\<close> is the set of cells
  that share the root \<open>r\<close>, here the ascending list of those cells among the \<open>a\<close> cells of
  the grid.  The cage of a value that is no cell's root is empty.
\<close>

definition cage_cells :: "int list \<Rightarrow> int \<Rightarrow> int \<Rightarrow> nat list" where
  "cage_cells roots a r = filter (\<lambda>i. roots ! i = r) [0..<nat a]"

definition cage_size :: "int list \<Rightarrow> int \<Rightarrow> int \<Rightarrow> int" where
  "cage_size roots a r = int (length (cage_cells roots a r))"

text \<open>
  In the words of the specification: the root array is idempotent when
  \<open>roots[roots[i]] == roots[i]\<close> for every cell \<open>i\<close>.
\<close>

definition roots_idempotent :: "int list \<Rightarrow> bool" where
  "roots_idempotent roots = list_all (\<lambda>r. 0 \<le> r \<and> nat r < length roots \<and> roots ! nat r = r) roots"

section \<open>The generation orchestrator\<close>

subsection \<open>Parameters, collaborators and results\<close>

record game_params =
  gp_w :: int
  gp_diff :: int
  gp_multiplication_only :: int
  gp_mode_flags :: int
  gp_profile :: int

text \<open>
  \<open>random_new\<close> and \<open>new_game_desc\<close> belong to the puzzle library, not to the harness.
  They are parameters of the model: \<open>random_new\<close> maps the seed string to a random state
  or to the null pointer, and \<open>new_game_desc\<close> maps the parameters and that fresh random
  state to a descriptor or to the null pointer.
\<close>

record 'rs collaborators =
  random_new :: "string \<Rightarrow> 'rs option"
  new_game_desc :: "game_params \<Rightarrow> 'rs \<Rightarrow> string option"

text \<open>The arguments of \<open>test_combination\<close>; \<open>base_seed\<close> is an \<open>unsigned int\<close>.\<close>

record combination =
  tc_size :: int
  tc_diff :: int
  tc_profile :: int
  tc_max_cage_size :: int
  tc_max_mul_cells :: int
  tc_puzzles :: int
  tc_base_seed :: int

text \<open>
  \<open>TestResult\<close> without its two \<open>double\<close> fields: \<open>total_time_ms\<close> is read from the
  clock and \<open>avg_attempts\<close> is a floating-point quotient.
\<close>

record TestResult =
  tr_size :: int
  tr_diff :: int
  tr_puzzles :: int
  tr_attempts :: int
  tr_successes :: int
  tr_failures :: int

subsection \<open>The seed string\<close>

fun dec_nat :: "nat \<Rightarrow> string" where
  "dec_nat n =
     (if n < 10 then [char_of (48 + n)]
      else dec_nat (n div 10) @ [char_of (48 + n mod 10)])"

definition dec_int :: "int \<Rightarrow> string" where
  "dec_int i = (if i < 0 then CHR ''-'' # dec_nat (nat (- i)) else dec_nat (nat i))"

text \<open>
  \<open>snprintf(seed_str, 64, "test_%u_%d_%d", base_seed + (unsigned int)puzzle, puzzle,
  attempts)\<close>: the sum is an \<open>unsigned int\<close>, and at most 63 characters are stored.
\<close>

definition seed_string :: "int \<Rightarrow> int \<Rightarrow> int \<Rightarrow> string" where
  "seed_string base_seed puzzle attempts =
     take 63 (''test_'' @ dec_nat (nat (u32 (base_seed + u32 puzzle))) @ ''_'' @
              dec_int puzzle @ ''_'' @ dec_int attempts)"

definition attempt_params :: "combination \<Rightarrow> game_params" where
  "attempt_params C =
     \<lparr>gp_w = tc_size C, gp_diff = tc_diff C, gp_multiplication_only = 0,
      gp_mode_flags = 0, gp_profile = tc_profile C\<rparr>"

subsection \<open>One attempt\<close>

text \<open>
  How one iteration of the \<open>while\<close> loop ends: at one of its six \<open>continue\<close>
  statements, at the end of the body with \<open>desc == NULL\<close>, or with \<open>success = true\<close>.
\<close>

datatype attempt_exit =
    Random_Failed
  | No_Descriptor
  | Clue_Cap_Exceeded
  | Root_Parse_Failed
  | Cage_Too_Large
  | Mul_Cap_Exceeded
  | Accepted

text \<open>The checks on a descriptor that the generator returned.\<close>

definition mul_checks :: "string \<Rightarrow> combination \<Rightarrow> int list \<Rightarrow> string \<Rightarrow> fault + attempt_exit" where
  "mul_checks desc C roots ops =
     (if 0 < tc_max_mul_cells C then
        (case parse_ops desc (tc_size C) roots ops of
           Inl f \<Rightarrow> Inl f
         | Inr None \<Rightarrow> Inr Mul_Cap_Exceeded
         | Inr (Some ops') \<Rightarrow>
             (case mult_cages_within_limit roots ops' (s32 (tc_size C * tc_size C))
                     (tc_max_mul_cells C) of
                Inl f \<Rightarrow> Inl f
              | Inr ok \<Rightarrow> Inr (if ok then Accepted else Mul_Cap_Exceeded)))
      else Inr Accepted)"

definition cage_checks :: "string \<Rightarrow> combination \<Rightarrow> int list \<Rightarrow> string \<Rightarrow> fault + attempt_exit" where
  "cage_checks desc C roots ops =
     (if 0 < tc_max_cage_size C then
        (case cage_sizes_within_limit roots (s32 (tc_size C * tc_size C))
                (tc_max_cage_size C) (Some 0) of
           Inl f \<Rightarrow> Inl f
         | Inr (ok, max_seen) \<Rightarrow>
             if \<not> ok then Inr Cage_Too_Large else mul_checks desc C roots ops)
      else mul_checks desc C roots ops)"

definition check_descriptor :: "string \<Rightarrow> combination \<Rightarrow> fault + attempt_exit" where
  "check_descriptor desc C =
     (if \<not> clue_values_within_cap desc then Inr Clue_Cap_Exceeded
      else if 0 < tc_max_cage_size C \<or> 0 < tc_max_mul_cells C then
        (let a = s32 (tc_size C * tc_size C);
             ops = replicate (nat a) (CHR 0x00) in
         case parse_root_indices desc (tc_size C) of
           None \<Rightarrow> Inr Root_Parse_Failed
         | Some roots \<Rightarrow> cage_checks desc C roots ops)
      else Inr Accepted)"

text \<open>
  The first half of the loop body: the seed string, the random state, the parameters and
  the call of the generator.  \<open>Inl\<close> is the way the iteration ends without a descriptor.
\<close>

definition generate ::
  "'rs collaborators \<Rightarrow> combination \<Rightarrow> int \<Rightarrow> int \<Rightarrow> attempt_exit + string" where
  "generate E C puzzle attempts =
     (case random_new E (seed_string (tc_base_seed C) puzzle attempts) of
        None \<Rightarrow> Inl Random_Failed
      | Some rs \<Rightarrow>
          (case new_game_desc E (attempt_params C) rs of
             None \<Rightarrow> Inl No_Descriptor
           | Some desc \<Rightarrow> Inr desc))"

definition run_attempt ::
  "'rs collaborators \<Rightarrow> combination \<Rightarrow> int \<Rightarrow> int \<Rightarrow> fault + attempt_exit" where
  "run_attempt E C puzzle attempts =
     (case generate E C puzzle attempts of
        Inl x \<Rightarrow> Inr x
      | Inr desc \<Rightarrow> check_descriptor desc C)"

subsection \<open>The retry loop and the loop over the samples\<close>

record attempt_state =
  st_success :: bool
  st_attempts :: int
  st_total_attempts :: int
  st_result :: TestResult

text \<open>
  The \<open>while\<close> loop of one sample.  \<open>attempts\<close> stays below \<open>MAX_ATTEMPTS\<close> before it is
  incremented; the two running totals are reduced to 32 bits.
\<close>

function attempt_loop ::
  "'rs collaborators \<Rightarrow> combination \<Rightarrow> int \<Rightarrow> attempt_state \<Rightarrow> fault + attempt_state" where
  "attempt_loop E C puzzle st =
     (if \<not> st_success st \<and> st_attempts st < MAX_ATTEMPTS then
        (let st1 = st\<lparr>st_attempts := st_attempts st + 1,
                      st_total_attempts := s32 (st_total_attempts st + 1)\<rparr> in
         case run_attempt E C puzzle (st_attempts st1) of
           Inl f \<Rightarrow> Inl f
         | Inr x \<Rightarrow>
             if x = Accepted then
               attempt_loop E C puzzle
                 (st1\<lparr>st_success := True,
                      st_result := (st_result st1)
                        \<lparr>tr_successes := s32 (tr_successes (st_result st1) + 1)\<rparr>\<rparr>)
             else attempt_loop E C puzzle st1)
      else Inr st)"
  by pat_completeness auto
termination
  by (relation "measure (\<lambda>(E, C, puzzle, st).
        if st_success st then 0 else nat (MAX_ATTEMPTS + 1 - st_attempts st))")
     (auto simp: MAX_ATTEMPTS_def)

text \<open>The state in which the loop of a sample starts: \<open>success = false\<close>, \<open>attempts = 0\<close>.\<close>

definition fresh_sample :: "int \<Rightarrow> TestResult \<Rightarrow> attempt_state" where
  "fresh_sample total_attempts result =
     \<lparr>st_success = False, st_attempts = 0,
      st_total_attempts = total_attempts, st_result = result\<rparr>"

definition finish_sample :: "attempt_state \<Rightarrow> TestResult" where
  "finish_sample st =
     (let r = (if \<not> st_success st
               then (st_result st)\<lparr>tr_failures := s32 (tr_failures (st_result st) + 1)\<rparr>
               else st_result st)
      in r\<lparr>tr_attempts := s32 (tr_attempts r + st_attempts st)\<rparr>)"

text \<open>
  The \<open>for\<close> loop over the samples; the state is \<open>total_attempts\<close> and \<open>result\<close>.
  \<open>puzzle\<close> is below \<open>puzzles\<close> when it is incremented.
\<close>

function puzzle_loop ::
  "'rs collaborators \<Rightarrow> combination \<Rightarrow> int \<Rightarrow> int \<times> TestResult \<Rightarrow> fault + (int \<times> TestResult)" where
  "puzzle_loop E C puzzle s =
     (if puzzle < tc_puzzles C then
        (case attempt_loop E C puzzle (fresh_sample (fst s) (snd s)) of
           Inl f \<Rightarrow> Inl f
         | Inr st \<Rightarrow> puzzle_loop E C (puzzle + 1) (st_total_attempts st, finish_sample st))
      else Inr s)"
  by pat_completeness auto
termination
  by (relation "measure (\<lambda>(E, C, puzzle, s). nat (tc_puzzles C - puzzle))") auto

definition initial_result :: "combination \<Rightarrow> TestResult" where
  "initial_result C =
     \<lparr>tr_size = tc_size C, tr_diff = tc_diff C, tr_puzzles = tc_puzzles C,
      tr_attempts = 0, tr_successes = 0, tr_failures = 0\<rparr>"

definition test_combination :: "'rs collaborators \<Rightarrow> combination \<Rightarrow> fault + TestResult" where
  "test_combination E C =
     (case puzzle_loop E C 0 (0, initial_result C) of
        Inl f \<Rightarrow> Inl f
      | Inr (total_attempts, result) \<Rightarrow> Inr result)"

subsection \<open>The calls of the collaborators\<close>

text \<open>
  What one iteration hands to the collaborators: the seed string passed to \<open>random_new\<close>
  and, when a random state came back, the parameters passed to \<open>new_game_desc\<close> (\<open>None\<close>
  when the iteration left at \<open>if (!rs) continue\<close> before the parameters were set up).
\<close>

definition attempt_call ::
  "'rs collaborators \<Rightarrow> combination \<Rightarrow> int \<Rightarrow> int \<Rightarrow> string \<times> game_params option" where
  "attempt_call E C puzzle attempts =
     (case random_new E (seed_string (tc_base_seed C) puzzle attempts) of
        None \<Rightarrow> (seed_string (tc_base_seed C) puzzle attempts, None)
      | Some rs \<Rightarrow> (seed_string (tc_base_seed C) puzzle attempts, Some (attempt_params C)))"


subsection \<open>Samples, in the words of the specification\<close>

text \<open>
  A sample is accepted when one of the attempts \<open>1, \<dots>, MAX_ATTEMPTS\<close> passes every
  check, and exhausted otherwise.
\<close>

definition sample_accepted :: "'rs collaborators \<Rightarrow> combination \<Rightarrow> int \<Rightarrow> bool" where
  "sample_accepted E C puzzle =
     list_ex (\<lambda>k. run_attempt E C puzzle k = Inr Accepted) [1..MAX_ATTEMPTS]"

subsection \<open>Inputs for examples\<close>

text \<open>
  A combination as \<open>run_profile_tests\<close> builds it for the 3 by 3 grid (cage cap 6,
  multiplication cap 10), and collaborators that answer every call with the same
  descriptor, or with none.
\<close>

definition classik_3 :: "int \<Rightarrow> combination" where
  "classik_3 puzzles =
     \<lparr>tc_size = 3, tc_diff = 0, tc_profile = 0, tc_max_cage_size = 6,
      tc_max_mul_cells = 10, tc_puzzles = puzzles, tc_base_seed = 1000\<rparr>"

definition constant_generator :: "string option \<Rightarrow> unit collaborators" where
  "constant_generator d = \<lparr>random_new = (\<lambda>s. Some ()), new_game_desc = (\<lambda>p rs. d)\<rparr>"


section \<open>The flow network solver\<close>

text \<open>
  Modelled from the spec: the solver (\<open>maxflow_scratch_size\<close>, \<open>maxflow_setup_backedges\<close>,
  \<open>maxflow_with_scratch\<close> of \<open>maxflow_optimized.c\<close>) is not among the sources; only its
  tests are.  The specification describes it as a repeated breadth-first search for a
  shortest augmenting path in the residual graph, augmenting by the bottleneck residual
  capacity of the path until no augmenting path remains, with the residual arc of every
  edge tracked through its paired back edge.

  A graph has vertices \<open>0, \<dots>, nv - 1\<close> and \<open>ne\<close> edges; edge \<open>e\<close> goes from
  \<open>edges[2e]\<close> to \<open>edges[2e + 1]\<close>, as in the arrays of the tests.  The residual graph
  has \<open>2 * ne\<close> arcs: arc \<open>e < ne\<close> is edge \<open>e\<close> itself, with residual capacity
  \<open>capacity[e] - flow[e]\<close>, and arc \<open>backedges[e]\<close> is its pair in the opposite direction,
  with residual capacity \<open>flow[e]\<close>.  The scratch memory holds the queue and the
  predecessor arcs of one search; the model passes them as values.
\<close>

record flow_graph =
  fg_nv :: nat
  fg_ne :: nat
  fg_edges :: "nat list"
  fg_backedges :: "nat list"
  fg_capacity :: "int list"

text \<open>Modelled from the spec: the index of the paired residual arc of every edge.\<close>

definition maxflow_setup_backedges :: "nat \<Rightarrow> nat list \<Rightarrow> nat list" where
  "maxflow_setup_backedges ne edges = map (\<lambda>e. ne + e) [0..<ne]"

definition edge_from :: "flow_graph \<Rightarrow> nat \<Rightarrow> nat" where
  "edge_from g e = fg_edges g ! (2 * e)"

definition edge_to :: "flow_graph \<Rightarrow> nat \<Rightarrow> nat" where
  "edge_to g e = fg_edges g ! (2 * e + 1)"

text \<open>The edge that a residual arc belongs to, and whether the arc follows it forwards.\<close>

definition arc_edge :: "flow_graph \<Rightarrow> nat \<Rightarrow> nat \<times> bool" where
  "arc_edge g x =
     (if x < fg_ne g then (x, True)
      else (case find (\<lambda>e. fg_backedges g ! e = x) [0..<fg_ne g] of
              Some e \<Rightarrow> (e, False)
            | None \<Rightarrow> (x, True)))"

definition arc_tail :: "flow_graph \<Rightarrow> nat \<Rightarrow> nat" where
  "arc_tail g x = (case arc_edge g x of (e, fwd) \<Rightarrow> if fwd then edge_from g e else edge_to g e)"

definition arc_residual :: "flow_graph \<Rightarrow> int list \<Rightarrow> nat \<Rightarrow> int" where
  "arc_residual g flow x =
     (case arc_edge g x of (e, fwd) \<Rightarrow> if fwd then fg_capacity g ! e - flow ! e else flow ! e)"

text \<open>The residual arcs with spare capacity that leave vertex \<open>v\<close>, each with its head.\<close>

definition out_arcs :: "flow_graph \<Rightarrow> int list \<Rightarrow> nat \<Rightarrow> (nat \<times> nat) list" where
  "out_arcs g flow v =
     concat (map (\<lambda>e.
        (if edge_from g e = v \<and> 0 < fg_capacity g ! e - flow ! e then [(e, edge_to g e)] else []) @
        (if edge_to g e = v \<and> 0 < flow ! e then [(fg_backedges g ! e, edge_from g e)] else []))
       [0..<fg_ne g])"

text \<open>
  One breadth-first search.  \<open>visit\<close> scans the arcs out of the vertex taken from the
  queue: a head reached for the first time gets the arc as its predecessor and joins
  the queue.  Every vertex enters the queue at most once, so \<open>nv\<close> rounds suffice.
\<close>

fun visit ::
  "(nat \<times> nat) list \<Rightarrow> (nat \<rightharpoonup> nat) \<Rightarrow> nat list \<Rightarrow> nat list \<Rightarrow> (nat \<rightharpoonup> nat) \<times> nat list \<times> nat list" where
  "visit [] prev seen queue = (prev, seen, queue)"
| "visit ((x, h) # arcs) prev seen queue =
     (if h \<in> set seen then visit arcs prev seen queue
      else visit arcs (prev(h \<mapsto> x)) (h # seen) (queue @ [h]))"

fun bfs ::
  "nat \<Rightarrow> flow_graph \<Rightarrow> int list \<Rightarrow> (nat \<rightharpoonup> nat) \<Rightarrow> nat list \<Rightarrow> nat list \<Rightarrow> (nat \<rightharpoonup> nat)" where
  "bfs 0 g flow prev seen queue = prev"
| "bfs (Suc n) g flow prev seen [] = prev"
| "bfs (Suc n) g flow prev seen (v # queue) =
     (case visit (out_arcs g flow v) prev seen queue of
        (prev', seen', queue') \<Rightarrow> bfs n g flow prev' seen' queue')"

text \<open>The arcs of the path found, from the sink back to the source (at most \<open>nv\<close> arcs).\<close>

fun path_back :: "nat \<Rightarrow> flow_graph \<Rightarrow> (nat \<rightharpoonup> nat) \<Rightarrow> nat \<Rightarrow> nat list" where
  "path_back 0 g prev v = []"
| "path_back (Suc n) g prev v =
     (case prev v of None \<Rightarrow> [] | Some x \<Rightarrow> x # path_back n g prev (arc_tail g x))"

fun bottleneck :: "flow_graph \<Rightarrow> int list \<Rightarrow> nat list \<Rightarrow> int" where
  "bottleneck g flow [] = 0"
| "bottleneck g flow [x] = arc_residual g flow x"
| "bottleneck g flow (x # path) = min (arc_residual g flow x) (bottleneck g flow path)"

fun augment :: "flow_graph \<Rightarrow> int \<Rightarrow> nat list \<Rightarrow> int list \<Rightarrow> int list" where
  "augment g b [] flow = flow"
| "augment g b (x # path) flow =
     (case arc_edge g x of
        (e, fwd) \<Rightarrow> augment g b path (flow[e := (if fwd then flow ! e + b else flow ! e - b)]))"

text \<open>
  The outer loop runs until the search does not reach the sink.  Nothing in the
  specification bounds the number of rounds for every input, so the loop is a partial
  function.  The state is the flow and the total pushed so far.
\<close>

partial_function (option) augment_loop ::
  "flow_graph \<Rightarrow> nat \<Rightarrow> nat \<Rightarrow> int list \<times> int \<Rightarrow> (int list \<times> int) option" where
  "augment_loop g source sink s =
     (if bfs (fg_nv g) g (fst s) Map.empty [source] [source] sink = None then Some s
      else augment_loop g source sink
             (augment g
                (bottleneck g (fst s)
                   (path_back (fg_nv g) g (bfs (fg_nv g) g (fst s) Map.empty [source] [source]) sink))
                (path_back (fg_nv g) g (bfs (fg_nv g) g (fst s) Map.empty [source] [source]) sink)
                (fst s),
              snd s +
                bottleneck g (fst s)
                  (path_back (fg_nv g) g (bfs (fg_nv g) g (fst s) Map.empty [source] [source]) sink)))"

declare augment_loop.simps [code]

text \<open>
  Modelled from the spec: \<open>solve\<close> starts from the zero flow and returns the maximum flow
  value together with the flow of every edge; \<open>None\<close> stands for a run that never ends.
\<close>

definition maxflow_with_scratch :: "flow_graph \<Rightarrow> nat \<Rightarrow> nat \<Rightarrow> (int \<times> int list) option" where
  "maxflow_with_scratch g source sink =
     map_option (\<lambda>s. (snd s, fst s))
       (augment_loop g source sink (replicate (fg_ne g) 0, 0))"

text \<open>The graph of \<open>test_diamond\<close>.\<close>

definition diamond :: flow_graph where
  "diamond =
     \<lparr>fg_nv = 4, fg_ne = 5, fg_edges = [0, 1, 0, 2, 1, 2, 1, 3, 2, 3],
      fg_backedges = maxflow_setup_backedges 5 [0, 1, 0, 2, 1, 2, 1, 3, 2, 3],
      fg_capacity = [10, 10, 1, 10, 10]\<rparr>"

section \<open>Properties of \<open>clue_values_within_cap\<close>\<close>

lemma atoi_digits_bound: "0 \<le> acc \<Longrightarrow> atoi_digits cs acc < (acc + 1) * 10 ^ length cs"
proof (induction cs arbitrary: acc)
  case Nil
  then show ?case by simp
next
  case (Cons c cs)
  show ?case
  proof (cases "isdigit c")
    case True
    then have d: "0 \<le> digit_val c" "digit_val c \<le> 9"
      by (auto simp: isdigit_def digit_val_def)
    have "atoi_digits cs (acc * 10 + digit_val c) < (acc * 10 + digit_val c + 1) * 10 ^ length cs"
      using Cons.IH[of "acc * 10 + digit_val c"] Cons.prems d by simp
    also have "\<dots> \<le> ((acc + 1) * 10) * 10 ^ length cs"
      using d by (intro mult_right_mono) auto
    also have "\<dots> = (acc + 1) * 10 ^ length (c # cs)"
      by simp
    finally show ?thesis using True by simp
  next
    case False
    define m :: int where "m = 10 ^ length (c # cs)"
    have "1 \<le> m" unfolding m_def by (rule one_le_power) simp
    then have "(acc + 1) * 1 \<le> (acc + 1) * m"
      using Cons.prems by (intro mult_left_mono) auto
    then have "acc < (acc + 1) * m" by simp
    then show ?thesis using False by (simp add: m_def)
  qed
qed

lemma atoi_digits_nonneg: "0 \<le> acc \<Longrightarrow> 0 \<le> atoi_digits cs acc"
  by (induction cs arbitrary: acc) (auto simp: isdigit_def digit_val_def)

text \<open>A buffer of \<open>n\<close> characters cannot spell a number of more than \<open>n\<close> digits.\<close>

lemma atoi_less_power: "atoi s < 10 ^ length s"
proof (cases "dropWhile isspace s")
  case Nil
  have "atoi s = 0" unfolding atoi_def Nil by simp
  then show ?thesis by simp
next
  case (Cons c cs)
  define n where "n = length (c # cs)"
  have "length (dropWhile isspace s) \<le> length s" by (rule length_dropWhile_le)
  then have "n \<le> length s" by (simp add: n_def Cons)
  then have p: "(10::int) ^ n \<le> 10 ^ length s"
    by (intro power_increasing) auto
  have b1: "atoi_digits (c # cs) 0 < 10 ^ n"
    using atoi_digits_bound[of 0 "c # cs"] by (simp add: n_def)
  have "atoi_digits cs 0 < 10 ^ length cs" using atoi_digits_bound[of 0 cs] by simp
  also have "\<dots> \<le> 10 ^ n" unfolding n_def by (intro power_increasing) auto
  finally have b2: "atoi_digits cs 0 < 10 ^ n" .
  have "- atoi_digits cs 0 \<le> 0" using atoi_digits_nonneg[of 0 cs] by simp
  also have "(0::int) < 10 ^ n" by simp
  finally have b3: "- atoi_digits cs 0 < 10 ^ n" .
  have "atoi s = - atoi_digits cs 0 \<or> atoi s = atoi_digits cs 0 \<or> atoi s = atoi_digits (c # cs) 0"
    unfolding atoi_def Cons by (simp del: atoi_digits.simps)
  then have "atoi s < 10 ^ n" using b1 b2 b3 by auto
  then show ?thesis using p by linarith
qed

lemma atoi_field_within_cap: "atoi (take 5 p) \<le> MAX_CLUE_VALUE"
proof -
  have "atoi (take 5 p) < 10 ^ length (take 5 p)" by (rule atoi_less_power)
  also have "\<dots> \<le> 10 ^ 5" by (intro power_increasing) auto
  finally show ?thesis by (simp add: MAX_CLUE_VALUE_def)
qed

lemma clue_scan_exits:
  "clue_scan p \<in> {Clues_Ok, Op_Not_Alpha, Short_Field, Bad_Trailer}"
proof (induction p rule: clue_scan.induct)
  case 1
  show ?case by simp
next
  case (2 op p)
  have a: "\<not> atoi (take 5 p) > MAX_CLUE_VALUE"
    using atoi_field_within_cap[of p] by simp
  show ?case using 2 a by (auto split: list.splits)
qed

text \<open>
  Claim C10.  The branch \<open>if (val > (int)MAX_CLUE_VALUE) return false\<close> is never taken: the
  value comes from a field of five characters, so \<open>atoi\<close> yields at most 99999, and for
  every string the function returns \<open>false\<close> only at one of the four structural exits
  (no semicolon, an operator that is not a letter, fewer than five characters left, or a
  character after the field that is neither a comma nor the end of the string).
\<close>

theorem clue_over_cap_branch_unreachable:
  "clue_values_exit desc \<noteq> Over_Cap \<and>
   atoi (take 5 p) \<le> MAX_CLUE_VALUE \<and>
   (clue_values_within_cap desc \<or>
    clue_values_exit desc \<in> {No_Delimiter, Op_Not_Alpha, Short_Field, Bad_Trailer})"
proof -
  have "clue_values_exit desc \<in> {Clues_Ok, No_Delimiter, Op_Not_Alpha, Short_Field, Bad_Trailer}"
    using clue_scan_exits by (auto simp: clue_values_exit_def split: option.splits)
  then show ?thesis
    using atoi_field_within_cap[of p] by (auto simp: clue_values_within_cap_def)
qed

section \<open>Properties of \<open>max_mul_cells_for_size\<close>\<close>

lemma exponent_below_power: "2 \<le> u \<Longrightarrow> int c < u ^ c" for u :: int
proof (induction c)
  case 0
  show ?case by simp
next
  case (Suc c)
  then have a: "int (Suc c) \<le> u ^ c" by simp
  have "0 < u ^ c" using Suc.prems by simp
  then have "u ^ c * 1 < u ^ c * u"
    using Suc.prems by (intro mult_strict_left_mono) auto
  then have "u ^ c < u ^ Suc c" by (simp add: mult.commute)
  then show ?case using a by linarith
qed

text \<open>The loop condition \<open>val <= MAX_CLUE_VALUE / w\<close> says that the product fits.\<close>

lemma mul_guard_iff:
  assumes "0 < u"
  shows "mul_guard u (v, c) \<longleftrightarrow> v * u \<le> MAX_CLUE_VALUE"
proof
  assume "mul_guard u (v, c)"
  then have "v \<le> MAX_CLUE_VALUE div u" by (simp add: mul_guard_def)
  then have "v * u \<le> (MAX_CLUE_VALUE div u) * u"
    using assms by (intro mult_right_mono) auto
  also have "\<dots> \<le> MAX_CLUE_VALUE"
    using assms by (simp add: mult.commute pos_mod_sign minus_mod_eq_mult_div [symmetric])
  finally show "v * u \<le> MAX_CLUE_VALUE" .
next
  assume "v * u \<le> MAX_CLUE_VALUE"
  then have "(v * u) div u \<le> MAX_CLUE_VALUE div u"
    using assms by (rule zdiv_mono1)
  then show "mul_guard u (v, c)"
    using assms by (simp add: mul_guard_def)
qed

lemma mul_step_power:
  assumes "2 \<le> u" "u ^ Suc c \<le> MAX_CLUE_VALUE"
  shows "mul_step u (u ^ c, int c) = (u ^ Suc c, int (Suc c))"
proof -
  have "int (Suc c) < u ^ Suc c" using assms(1) by (rule exponent_below_power)
  then have "int (Suc c) < 99999" using assms(2) by (simp add: MAX_CLUE_VALUE_def)
  then have "s32 (int c + 1) = int (Suc c)" by (simp add: s32_def)
  moreover have "0 \<le> u ^ Suc c" using assms(1) by simp
  then have "u64 (u ^ c * u) = u ^ Suc c"
    using assms(2) by (simp add: u64_def MAX_CLUE_VALUE_def mult.commute)
  ultimately show ?thesis by (simp add: mul_step_def)
qed

text \<open>From a state \<open>(u\<^sup>c, c)\<close> below the cap the loop ends, at the last power below it.\<close>

lemma mul_loop_power:
  assumes "2 \<le> u" "u ^ c \<le> MAX_CLUE_VALUE"
  shows "\<exists>k. mul_loop u (u ^ c, int c) = Some (u ^ k, int k) \<and>
             u ^ k \<le> MAX_CLUE_VALUE \<and> MAX_CLUE_VALUE < u ^ Suc k"
  using assms(2)
proof (induction "nat (MAX_CLUE_VALUE - u ^ c)" arbitrary: c rule: less_induct)
  case less
  have u0: "0 < u" using assms(1) by simp
  show ?case
  proof (cases "mul_guard u (u ^ c, int c)")
    case True
    then have le: "u ^ Suc c \<le> MAX_CLUE_VALUE"
      using u0 by (simp add: mul_guard_iff mult.commute)
    have "0 < u ^ c" using u0 by simp
    then have "u ^ c * 1 < u ^ c * u"
      using assms(1) by (intro mult_strict_left_mono) auto
    then have "u ^ c < u ^ Suc c" by (simp add: mult.commute)
    then have dec: "nat (MAX_CLUE_VALUE - u ^ Suc c) < nat (MAX_CLUE_VALUE - u ^ c)"
      using le by linarith
    obtain k where k: "mul_loop u (u ^ Suc c, int (Suc c)) = Some (u ^ k, int k)"
        "u ^ k \<le> MAX_CLUE_VALUE" "MAX_CLUE_VALUE < u ^ Suc k"
      using less.hyps[OF dec le] by blast
    have "mul_loop u (u ^ c, int c) = mul_loop u (mul_step u (u ^ c, int c))"
      using True by (subst mul_loop.simps) simp
    also have "\<dots> = Some (u ^ k, int k)"
      using k(1) mul_step_power[OF assms(1) le] by simp
    finally show ?thesis using k(2,3) by blast
  next
    case False
    then have "MAX_CLUE_VALUE < u ^ Suc c"
      using u0 by (simp add: mul_guard_iff mult.commute)
    moreover have "mul_loop u (u ^ c, int c) = Some (u ^ c, int c)"
      using False by (subst mul_loop.simps) simp
    ultimately show ?thesis using less.prems by blast
  qed
qed

lemma mul_steps_power:
  assumes "2 \<le> u" "u ^ k \<le> MAX_CLUE_VALUE" "n \<le> k"
  shows "(mul_step u ^^ n) (1, 0) = (u ^ n, int n)"
  using assms(3)
proof (induction n)
  case 0
  show ?case by simp
next
  case (Suc n)
  have "u ^ Suc n \<le> u ^ k" using assms(1) Suc.prems by (intro power_increasing) auto
  then have "u ^ Suc n \<le> MAX_CLUE_VALUE" using assms(2) by linarith
  then show ?case using Suc mul_step_power[OF assms(1), of n] by simp
qed

text \<open>
  Claim C2.  For a width \<open>w \<ge> 3\<close> (a C \<open>int\<close>) the function returns a number \<open>k\<close>
  with \<open>w\<^sup>k \<le> MAX_CLUE_VALUE\<close> that is the largest such exponent.  The loop runs through
  the states \<open>(w\<^sup>n, n)\<close> for \<open>n = 0, \<dots>, k\<close>: every value of \<open>val\<close> is a power of \<open>w\<close>
  that does not exceed the cap (no reduction modulo \<open>2\<^sup>6\<^sup>4\<close> takes place), and the
  condition holds before step \<open>n\<close> exactly when \<open>n < k\<close>, so the loop stops before the
  multiplication that would exceed the cap.
\<close>

theorem max_mul_cells_for_size_largest_power:
  assumes "3 \<le> w" and "w \<le> INT_MAX"
  shows "\<exists>k. max_mul_cells_for_size w = Some (Inr (int k)) \<and>
             w ^ k \<le> MAX_CLUE_VALUE \<and>
             (\<forall>j. w ^ j \<le> MAX_CLUE_VALUE \<longrightarrow> j \<le> k) \<and>
             (\<forall>n\<le>k. (mul_step (u64 w) ^^ n) (1, 0) = (w ^ n, int n) \<and>
                     w ^ n \<le> MAX_CLUE_VALUE \<and>
                     (mul_guard (u64 w) (w ^ n, int n) \<longleftrightarrow> n < k))"
proof -
  have uw: "u64 w = w"
    using assms by (simp add: u64_def INT_MAX_def)
  have u2: "2 \<le> w" using assms(1) by simp
  have u0: "0 < w" using u2 by simp
  have "w ^ 0 \<le> MAX_CLUE_VALUE" by (simp add: MAX_CLUE_VALUE_def)
  from mul_loop_power[OF u2 this]
  obtain k where k: "mul_loop w (1, 0) = Some (w ^ k, int k)"
      "w ^ k \<le> MAX_CLUE_VALUE" "MAX_CLUE_VALUE < w ^ Suc k"
    by auto
  have res: "max_mul_cells_for_size w = Some (Inr (int k))"
    using k(1) u0 by (simp add: max_mul_cells_for_size_def uw)
  have largest: "j \<le> k" if "w ^ j \<le> MAX_CLUE_VALUE" for j
  proof (rule ccontr)
    assume "\<not> j \<le> k"
    then have "Suc k \<le> j" by simp
    then have "w ^ Suc k \<le> w ^ j" using u2 by (intro power_increasing) auto
    then show False using that k(3) by linarith
  qed
  have inter: "(mul_step w ^^ n) (1, 0) = (w ^ n, int n) \<and> w ^ n \<le> MAX_CLUE_VALUE \<and>
      (mul_guard w (w ^ n, int n) \<longleftrightarrow> n < k)" if "n \<le> k" for n
  proof -
    have a: "(mul_step w ^^ n) (1, 0) = (w ^ n, int n)"
      using mul_steps_power[OF u2 k(2) that] .
    have "w ^ n \<le> w ^ k" using u2 that by (intro power_increasing) auto
    then have b: "w ^ n \<le> MAX_CLUE_VALUE" using k(2) by linarith
    have c: "mul_guard w (w ^ n, int n) \<longleftrightarrow> n < k"
    proof
      assume "mul_guard w (w ^ n, int n)"
      then have "w ^ Suc n \<le> MAX_CLUE_VALUE" using u0 by (simp add: mul_guard_iff mult.commute)
      then have "Suc n \<le> k" by (rule largest)
      then show "n < k" by simp
    next
      assume "n < k"
      then have "w ^ Suc n \<le> w ^ k" using u2 by (intro power_increasing) auto
      then have "w ^ Suc n \<le> MAX_CLUE_VALUE" using k(2) by linarith
      then show "mul_guard w (w ^ n, int n)" using u0 by (simp add: mul_guard_iff mult.commute)
    qed
    show ?thesis using a b c by blast
  qed
  show ?thesis
    using res k(2) largest inter unfolding uw by blast
qed

theorem max_mul_cells_for_size_witness:
  "(3::int) \<le> 3 \<and> 3 \<le> INT_MAX \<and> max_mul_cells_for_size 3 = Some (Inr 10)"
proof -
  have h: "(3::int) \<le> 3" "3 \<le> INT_MAX" by (simp_all add: INT_MAX_def)
  from max_mul_cells_for_size_largest_power[OF h]
  obtain k where k: "max_mul_cells_for_size 3 = Some (Inr (int k))"
      "(3::int) ^ k \<le> MAX_CLUE_VALUE" "\<forall>j. (3::int) ^ j \<le> MAX_CLUE_VALUE \<longrightarrow> j \<le> k"
    by blast
  have "(3::int) ^ 10 \<le> MAX_CLUE_VALUE" by (simp add: MAX_CLUE_VALUE_def)
  then have lo: "10 \<le> k" using k(3) by blast
  have hi: "k \<le> 10"
  proof (rule ccontr)
    assume "\<not> k \<le> 10"
    then have "11 \<le> k" by simp
    then have "(3::int) ^ 11 \<le> 3 ^ k" by (intro power_increasing) auto
    then show False using k(2) by (simp add: MAX_CLUE_VALUE_def)
  qed
  from lo hi have "k = 10" by simp
  then show ?thesis using k(1) h by simp
qed

section \<open>Properties of \<open>cage_sizes_within_limit\<close>\<close>

lemma s32_id: "- 2147483648 \<le> x \<Longrightarrow> x \<le> INT_MAX \<Longrightarrow> s32 x = x"
  by (simp add: s32_def INT_MAX_def)

text \<open>
  The counting loop, from any state in which \<open>max_cage\<close> is the largest entry of
  \<open>counts\<close> (or 0 when nothing has been counted): it does not leave the arrays, each
  counter grows by the number of listed cells with that root, and \<open>max_cage\<close> is again
  the largest entry.
\<close>

lemma tally_max_invariant:
  assumes "\<forall>i\<in>set cells. i < length roots \<and> 0 \<le> roots ! i \<and> roots ! i < int (length counts)"
    and "\<forall>q<length counts. 0 \<le> counts ! q \<and> counts ! q + int (length cells) \<le> INT_MAX"
    and "\<forall>q<length counts. counts ! q \<le> mx"
    and "mx = 0 \<or> (\<exists>q<length counts. counts ! q = mx)"
  shows "\<exists>cs' mx'. tally_max cells roots counts mx = Inr (cs', mx') \<and>
           length cs' = length counts \<and>
           (\<forall>q<length counts.
              cs' ! q = counts ! q + int (length (filter (\<lambda>i. roots ! i = int q) cells))) \<and>
           (\<forall>q<length counts. cs' ! q \<le> mx') \<and>
           (mx' = 0 \<or> (\<exists>q<length counts. cs' ! q = mx'))"
  using assms
proof (induction cells arbitrary: counts mx)
  case Nil
  then show ?case by simp
next
  case (Cons i cells)
  define r where "r = nat (roots ! i)"
  have i_ok: "i < length roots" and r_ok: "0 \<le> roots ! i" "r < length counts"
    using Cons.prems(1) by (auto simp: r_def)
  have rr: "roots ! i = int r" using r_ok(1) by (simp add: r_def)
  have cr: "0 \<le> counts ! r" "counts ! r + 1 \<le> INT_MAX"
    using Cons.prems(2) r_ok(2) by auto
  have wrap: "s32 (counts ! r + 1) = counts ! r + 1"
    using cr by (intro s32_id) auto
  define counts1 where "counts1 = counts[r := counts ! r + 1]"
  define mx1 where "mx1 = (if counts1 ! r > mx then counts1 ! r else mx)"
  have len1: "length counts1 = length counts" by (simp add: counts1_def)
  have at_r: "counts1 ! r = counts ! r + 1"
    using r_ok(2) by (simp add: counts1_def)
  have other: "counts1 ! q = counts ! q" if "q \<noteq> r" for q
    using that by (simp add: counts1_def)
  have step: "tally_max (i # cells) roots counts mx = tally_max cells roots counts1 mx1"
    using i_ok r_ok wrap
    by (simp add: Let_def rr counts1_def [symmetric] mx1_def)
  have p1: "\<forall>j\<in>set cells. j < length roots \<and> 0 \<le> roots ! j \<and> roots ! j < int (length counts1)"
    using Cons.prems(1) by (simp add: len1)
  have p2: "\<forall>q<length counts1. 0 \<le> counts1 ! q \<and> counts1 ! q + int (length cells) \<le> INT_MAX"
  proof (intro allI impI)
    fix q assume "q < length counts1"
    then have q: "q < length counts" by (simp add: len1)
    show "0 \<le> counts1 ! q \<and> counts1 ! q + int (length cells) \<le> INT_MAX"
      using Cons.prems(2) q at_r other[of q] by (cases "q = r") auto
  qed
  have p3: "\<forall>q<length counts1. counts1 ! q \<le> mx1"
  proof (intro allI impI)
    fix q assume "q < length counts1"
    then have q: "q < length counts" by (simp add: len1)
    show "counts1 ! q \<le> mx1"
      using Cons.prems(3) q at_r other[of q] by (cases "q = r") (auto simp: mx1_def)
  qed
  have p4: "mx1 = 0 \<or> (\<exists>q<length counts1. counts1 ! q = mx1)"
  proof (cases "counts1 ! r > mx")
    case True
    then have "counts1 ! r = mx1" by (simp add: mx1_def)
    then show ?thesis using r_ok(2) len1 by auto
  next
    case False
    then have m: "mx1 = mx" by (simp add: mx1_def)
    show ?thesis
    proof (cases "mx = 0")
      case True
      then show ?thesis using m by simp
    next
      case False
      then obtain q where q: "q < length counts" "counts ! q = mx"
        using Cons.prems(4) by auto
      have "q \<noteq> r" using q(2) \<open>\<not> counts1 ! r > mx\<close> at_r by auto
      then have "counts1 ! q = mx1" using other q(2) m by simp
      then show ?thesis using q(1) len1 by auto
    qed
  qed
  from Cons.IH[OF p1 p2 p3 p4]
  obtain cs' mx' where res: "tally_max cells roots counts1 mx1 = Inr (cs', mx')"
      "length cs' = length counts1"
      "\<forall>q<length counts1. cs' ! q = counts1 ! q + int (length (filter (\<lambda>j. roots ! j = int q) cells))"
      "\<forall>q<length counts1. cs' ! q \<le> mx'"
      "mx' = 0 \<or> (\<exists>q<length counts1. cs' ! q = mx')"
    by blast
  have cnt: "\<forall>q<length counts.
      cs' ! q = counts ! q + int (length (filter (\<lambda>j. roots ! j = int q) (i # cells)))"
  proof (intro allI impI)
    fix q assume q: "q < length counts"
    have "cs' ! q = counts1 ! q + int (length (filter (\<lambda>j. roots ! j = int q) cells))"
      using res(3) q len1 by simp
    then show "cs' ! q = counts ! q + int (length (filter (\<lambda>j. roots ! j = int q) (i # cells)))"
      using at_r other[of q] rr by (cases "q = r") auto
  qed
  show ?case
    using step res(1,2,4,5) cnt len1 by auto
qed

lemma cage_size_out_of_range:
  assumes "length roots = nat a" "\<forall>x\<in>set roots. 0 \<le> x \<and> x < a" "r < 0 \<or> a \<le> r"
  shows "cage_size roots a r = 0"
proof -
  have "\<forall>i\<in>set [0..<nat a]. roots ! i \<noteq> r"
    using assms by (auto simp: all_set_conv_all_nth)
  then have "filter (\<lambda>i. roots ! i = r) [0..<nat a] = []"
    by (simp add: filter_empty_conv)
  then show ?thesis by (simp add: cage_size_def cage_cells_def)
qed

text \<open>
  The loop of \<open>cage_sizes_within_limit\<close> on a root array of length \<open>a\<close> with entries in
  \<open>[0, a)\<close>: the counters end as the cage sizes and \<open>max_cage\<close> as the largest of them.
\<close>

lemma tally_max_cage_sizes:
  assumes "length roots = nat a" and "\<forall>x\<in>set roots. 0 \<le> x \<and> x < a" and "a \<le> INT_MAX"
  shows "\<exists>cs m. tally_max [0..<nat a] roots (replicate (nat a) 0) 0 = Inr (cs, m) \<and>
                length cs = nat a \<and>
                (\<forall>q<nat a. cs ! q = cage_size roots a (int q)) \<and>
                (\<forall>r. cage_size roots a r \<le> m) \<and>
                (\<exists>r. cage_size roots a r = m)"
proof -
  define n where "n = nat a"
  have q1: "\<forall>i\<in>set [0..<n]. i < length roots \<and> 0 \<le> roots ! i \<and>
      roots ! i < int (length (replicate n (0::int)))"
    using assms(1,2) by (auto simp: n_def all_set_conv_all_nth)
  have q2: "\<forall>q<length (replicate n (0::int)).
      0 \<le> replicate n (0::int) ! q \<and> replicate n (0::int) ! q + int (length [0..<n]) \<le> INT_MAX"
    using assms(3) by (auto simp: n_def)
  have q3: "\<forall>q<length (replicate n (0::int)). replicate n (0::int) ! q \<le> 0" by simp
  have q4: "(0::int) = 0 \<or> (\<exists>q<length (replicate n (0::int)). replicate n (0::int) ! q = 0)"
    by simp
  from tally_max_invariant[OF q1 q2 q3 q4]
  obtain cs' m where raw: "tally_max [0..<n] roots (replicate n 0) 0 = Inr (cs', m)"
      "length cs' = length (replicate n (0::int))"
      "\<forall>q<length (replicate n (0::int)).
         cs' ! q = replicate n (0::int) ! q + int (length (filter (\<lambda>i. roots ! i = int q) [0..<n]))"
      "\<forall>q<length (replicate n (0::int)). cs' ! q \<le> m"
      "m = 0 \<or> (\<exists>q<length (replicate n (0::int)). cs' ! q = m)"
    by blast
  have res: "tally_max [0..<n] roots (replicate n 0) 0 = Inr (cs', m)"
      "length cs' = n"
      "\<forall>q<n. cs' ! q = int (length (filter (\<lambda>i. roots ! i = int q) [0..<n]))"
      "\<forall>q<n. cs' ! q \<le> m"
      "m = 0 \<or> (\<exists>q<n. cs' ! q = m)"
    using raw by simp_all
  have in_range: "cs' ! q = cage_size roots a (int q)" if "q < n" for q
    using res(3) that by (simp add: cage_size_def cage_cells_def n_def)
  have size_cases: "cage_size roots a r = 0 \<or> (\<exists>q<n. r = int q)" for r
  proof (cases "r < 0 \<or> a \<le> r")
    case True
    then show ?thesis using cage_size_out_of_range[OF assms(1,2)] by simp
  next
    case False
    then have "nat r < n" "r = int (nat r)" by (auto simp: n_def)
    then show ?thesis by blast
  qed
  have nonneg: "0 \<le> m"
  proof (cases "m = 0")
    case True
    then show ?thesis by simp
  next
    case False
    then obtain q where "q < n" "cs' ! q = m" using res(5) by auto
    then have "m = int (length (filter (\<lambda>i. roots ! i = int q) [0..<n]))"
      using res(3) by auto
    then show ?thesis by simp
  qed
  have bound: "cage_size roots a r \<le> m" for r
    using size_cases[of r] in_range res(4) nonneg by auto
  have attained: "\<exists>r. cage_size roots a r = m"
  proof (cases "m = 0")
    case True
    have "cage_size roots a (- 1) = 0"
      using cage_size_out_of_range[OF assms(1,2), of "- 1"] by simp
    then show ?thesis using True by auto
  next
    case False
    then obtain q where "q < n" "cs' ! q = m" using res(5) by auto
    then show ?thesis using in_range by auto
  qed
  show ?thesis
    using res(1,2) in_range bound attained unfolding n_def by blast
qed

text \<open>
  Claim C7.  For a root array of length \<open>a\<close> with entries in \<open>[0, a)\<close> and any
  \<open>max_size\<close>, the function stays inside its arrays, returns \<open>true\<close> exactly when no
  cage has more than \<open>max_size\<close> cells, and a non-null \<open>max_seen\<close> receives the size of
  a largest cage: a number that bounds every cage size and is the size of some cage.
  (\<open>a\<close> is a C \<open>int\<close>, hence at most \<open>INT_MAX\<close>.)
\<close>

theorem cage_sizes_within_limit_correct:
  assumes "length roots = nat a" and "\<forall>x\<in>set roots. 0 \<le> x \<and> x < a" and "a \<le> INT_MAX"
  shows "\<exists>ok m. cage_sizes_within_limit roots a max_size max_seen
                   = Inr (ok, map_option (\<lambda>old. m) max_seen) \<and>
                 (ok \<longleftrightarrow> (\<forall>r. cage_size roots a r \<le> max_size)) \<and>
                 (\<forall>r. cage_size roots a r \<le> m) \<and>
                 (\<exists>r. cage_size roots a r = m)"
proof -
  obtain cs m where res: "tally_max [0..<nat a] roots (replicate (nat a) 0) 0 = Inr (cs, m)"
      and bound: "\<forall>r. cage_size roots a r \<le> m"
      and attained: "\<exists>r. cage_size roots a r = m"
    using tally_max_cage_sizes[OF assms] by blast
  have iff: "(m \<le> max_size) \<longleftrightarrow> (\<forall>r. cage_size roots a r \<le> max_size)"
  proof
    assume "m \<le> max_size"
    then show "\<forall>r. cage_size roots a r \<le> max_size" using bound by (meson order_trans)
  next
    assume "\<forall>r. cage_size roots a r \<le> max_size"
    then show "m \<le> max_size" using attained by auto
  qed
  have "cage_sizes_within_limit roots a max_size max_seen
          = Inr (m \<le> max_size, map_option (\<lambda>old. m) max_seen)"
    using res by (simp add: cage_sizes_within_limit_def split: option.splits)
  then show ?thesis using iff bound attained by blast
qed

theorem cage_sizes_within_limit_witness:
  "cage_sizes_within_limit [0, 0, 0, 3, 3, 3, 3, 7, 7] 9 3 (Some 0) = Inr (False, Some 4)"
proof -
  let ?roots = "[0, 0, 0, 3, 3, 3, 3, 7, 7] :: int list"
  have h1: "length ?roots = nat 9" by simp
  have h2: "\<forall>x\<in>set ?roots. 0 \<le> x \<and> x < 9" by simp
  have h3: "(9::int) \<le> INT_MAX" by (simp add: INT_MAX_def)
  from cage_sizes_within_limit_correct[OF h1 h2 h3, of 3 "Some 0"]
  obtain ok m where r: "cage_sizes_within_limit ?roots 9 3 (Some 0) = Inr (ok, Some m)"
      "ok \<longleftrightarrow> (\<forall>r. cage_size ?roots 9 r \<le> 3)"
      "\<forall>r. cage_size ?roots 9 r \<le> m" "\<exists>r. cage_size ?roots 9 r = m"
    by auto
  have c3: "cage_size ?roots 9 3 = 4" by (simp add: cage_size_def cage_cells_def upt_rec)
  have "\<not> (\<forall>r. cage_size ?roots 9 r \<le> 3)"
  proof
    assume "\<forall>r. cage_size ?roots 9 r \<le> 3"
    then have "cage_size ?roots 9 3 \<le> 3" by blast
    then show False using c3 by simp
  qed
  then have "\<not> ok" using r(2) by simp
  moreover have "m = 4"
  proof -
    have lo: "4 \<le> m" using r(3) c3 by metis
    have le4: "cage_size ?roots 9 r \<le> 4" for r
      by (simp add: cage_size_def cage_cells_def upt_rec)
    obtain r0 where e: "cage_size ?roots 9 r0 = m" using r(4) by blast
    have "m \<le> 4" using le4[of r0] e by simp
    then show ?thesis using lo by simp
  qed
  ultimately show ?thesis using r(1) by simp
qed

section \<open>The checks of one attempt stay inside their arrays\<close>

lemma s32_le_INT_MAX: "s32 x \<le> INT_MAX"
proof -
  have "(x + 2147483648) mod 4294967296 < 4294967296" by simp
  then show ?thesis unfolding s32_def INT_MAX_def by linarith
qed

lemma roots_loop_range:
  "roots_loop n a p = Some (rs, q) \<Longrightarrow> length rs = n \<and> (\<forall>x\<in>set rs. 0 \<le> x \<and> x < a)"
proof (induction n arbitrary: p rs q)
  case 0
  then show ?case by simp
next
  case (Suc n)
  obtain val digits p1 where rd: "read_digits p 0 0 = (val, digits, p1)"
    by (cases "read_digits p 0 0") auto
  from Suc.prems rd have ok: "0 \<le> val" "val < a"
    by (auto split: if_splits)
  from Suc.prems rd obtain p2 rs' where
    rec: "roots_loop n a p2 = Some (rs', q)" and rs: "rs = val # rs'"
    by (auto split: if_splits list.splits)
  from Suc.IH[OF rec] ok rs show ?case by simp
qed

text \<open>A root array that \<open>parse_root_indices\<close> accepts has \<open>a\<close> entries, all in \<open>[0, a)\<close>.\<close>

lemma parse_root_indices_range:
  assumes "parse_root_indices desc w = Some roots"
  shows "length roots = nat (s32 (w * w)) \<and> (\<forall>x\<in>set roots. 0 \<le> x \<and> x < s32 (w * w))"
proof -
  from assms obtain f c p where "roots_loop (nat (s32 (w * w))) (s32 (w * w)) f = Some (roots, p)"
    by (auto simp: parse_root_indices_def Let_def split: option.splits if_splits)
  then show ?thesis by (rule roots_loop_range)
qed

lemma tally_total:
  assumes "\<forall>i\<in>set cells. i < length roots \<and> 0 \<le> roots ! i \<and> roots ! i < int (length counts)"
  shows "\<exists>cs. tally cells roots counts = Inr cs \<and> length cs = length counts"
  using assms
proof (induction cells arbitrary: counts)
  case Nil
  then show ?case by simp
next
  case (Cons i cells)
  define counts1 where "counts1 = counts[nat (roots ! i) := s32 (counts ! nat (roots ! i) + 1)]"
  have len: "length counts1 = length counts" by (simp add: counts1_def)
  have step: "tally (i # cells) roots counts = tally cells roots counts1"
    using Cons.prems by (simp add: Let_def counts1_def)
  have "\<forall>j\<in>set cells. j < length roots \<and> 0 \<le> roots ! j \<and> roots ! j < int (length counts1)"
    using Cons.prems by (simp add: len)
  from Cons.IH[OF this] show ?case using step len by simp
qed

lemma ops_loop_total:
  assumes "\<forall>i\<in>set cells. i < length roots \<and> i < length ops"
  shows "\<exists>r. ops_loop cells roots p ops = Inr r \<and> (\<forall>ops'. r = Some ops' \<longrightarrow> length ops' = length ops)"
  using assms
proof (induction cells arbitrary: p ops)
  case Nil
  then show ?case by simp
next
  case (Cons i cells)
  have i: "i < length roots" "i < length ops" using Cons.prems by auto
  have rest: "\<forall>j\<in>set cells. j < length roots \<and> j < length ops'"
    if "length ops' = length ops" for ops' :: string
    using Cons.prems that by simp
  show ?case
  proof (cases "roots ! i \<noteq> int i")
    case True
    then show ?thesis using i Cons.IH[OF rest[of ops], of p] by simp
  next
    case False
    show ?thesis
    proof (cases p)
      case Nil
      then show ?thesis using i False by simp
    next
      case (Cons op p1)
      show ?thesis
      proof (cases "five_digits 5 p1")
        case None
        then show ?thesis using i False Cons by simp
      next
        case (Some p2)
        have "length (ops[i := op]) = length ops" by simp
        from Cons.IH[OF rest[OF this], of "skip_comma p2"]
        show ?thesis using i False Cons Some by simp
      qed
    qed
  qed
qed

lemma mul_scan_total:
  assumes "\<forall>i\<in>set cells. i < length roots \<and> i < length ops \<and> i < length counts"
  shows "\<exists>b. mul_scan cells roots ops counts max_mul = Inr b"
  using assms by (induction cells) auto

lemma cage_sizes_total:
  assumes "length roots = nat a" and "\<forall>x\<in>set roots. 0 \<le> x \<and> x < a" and "a \<le> INT_MAX"
  shows "\<exists>ok seen. cage_sizes_within_limit roots a max_size max_seen = Inr (ok, seen)"
proof -
  obtain cs m where "tally_max [0..<nat a] roots (replicate (nat a) 0) 0 = Inr (cs, m)"
    using tally_max_cage_sizes[OF assms] by blast
  then show ?thesis
    by (simp add: cage_sizes_within_limit_def)
qed

lemma mult_cages_total:
  assumes "length roots = nat a" and "\<forall>x\<in>set roots. 0 \<le> x \<and> x < a" and "length ops = nat a"
  shows "\<exists>b. mult_cages_within_limit roots ops a max_mul = Inr b"
proof -
  have "\<forall>i\<in>set [0..<nat a]. i < length roots \<and> 0 \<le> roots ! i \<and>
      roots ! i < int (length (replicate (nat a) (0::int)))"
    using assms(1,2) by (auto simp: all_set_conv_all_nth)
  from tally_total[OF this]
  obtain cs where cs: "tally [0..<nat a] roots (replicate (nat a) 0) = Inr cs" "length cs = nat a"
    by auto
  have "\<forall>i\<in>set [0..<nat a]. i < length roots \<and> i < length ops \<and> i < length cs"
    using assms(1,3) cs(2) by simp
  from mul_scan_total[OF this, of max_mul] show ?thesis
    using cs(1) by (simp add: mult_cages_within_limit_def)
qed

lemma parse_ops_total:
  assumes "length roots = nat (s32 (w * w))" and "length ops = nat (s32 (w * w))"
  shows "\<exists>r. parse_ops desc w roots ops = Inr r \<and>
             (\<forall>ops'. r = Some ops' \<longrightarrow> length ops' = nat (s32 (w * w)))"
proof (cases "strchr_semi desc")
  case None
  then show ?thesis by (simp add: parse_ops_def)
next
  case (Some fc)
  obtain f c where fc: "fc = (f, c)" by (cases fc) auto
  have "\<forall>i\<in>set [0..<nat (s32 (w * w))]. i < length roots \<and> i < length ops"
    using assms by simp
  from ops_loop_total[OF this, of c] show ?thesis
    using Some fc assms(2) by (simp add: parse_ops_def)
qed

lemma mul_checks_total:
  assumes "length roots = nat (s32 (tc_size C * tc_size C))"
    and "\<forall>x\<in>set roots. 0 \<le> x \<and> x < s32 (tc_size C * tc_size C)"
    and "length ops = nat (s32 (tc_size C * tc_size C))"
  shows "\<exists>x. mul_checks desc C roots ops = Inr x"
proof (cases "0 < tc_max_mul_cells C")
  case False
  then show ?thesis by (simp add: mul_checks_def)
next
  case True
  obtain r where r: "parse_ops desc (tc_size C) roots ops = Inr r"
      "\<forall>ops'. r = Some ops' \<longrightarrow> length ops' = nat (s32 (tc_size C * tc_size C))"
    using parse_ops_total[OF assms(1,3)] by blast
  show ?thesis
  proof (cases r)
    case None
    then show ?thesis using True r(1) by (simp add: mul_checks_def)
  next
    case (Some ops')
    then have "length ops' = nat (s32 (tc_size C * tc_size C))" using r(2) by simp
    from mult_cages_total[OF assms(1,2) this, of "tc_max_mul_cells C"]
    show ?thesis using True r(1) Some by (auto simp: mul_checks_def)
  qed
qed

lemma cage_checks_total:
  assumes "length roots = nat (s32 (tc_size C * tc_size C))"
    and "\<forall>x\<in>set roots. 0 \<le> x \<and> x < s32 (tc_size C * tc_size C)"
    and "length ops = nat (s32 (tc_size C * tc_size C))"
  shows "\<exists>x. cage_checks desc C roots ops = Inr x"
proof -
  obtain ok seen where
    "cage_sizes_within_limit roots (s32 (tc_size C * tc_size C)) (tc_max_cage_size C) (Some 0)
       = Inr (ok, seen)"
    using cage_sizes_total[OF assms(1,2) s32_le_INT_MAX] by blast
  then show ?thesis
    using mul_checks_total[OF assms] by (auto simp: cage_checks_def)
qed

text \<open>No descriptor makes the checks leave an array: the attempt always has an outcome.\<close>

lemma check_descriptor_total: "\<exists>x. check_descriptor desc C = Inr x"
proof (cases "parse_root_indices desc (tc_size C)")
  case None
  then show ?thesis by (simp add: check_descriptor_def)
next
  case (Some roots)
  have "length (replicate (nat (s32 (tc_size C * tc_size C))) (CHR 0x00))
      = nat (s32 (tc_size C * tc_size C))" by simp
  from cage_checks_total[OF conjunct1[OF parse_root_indices_range[OF Some]]
      conjunct2[OF parse_root_indices_range[OF Some]] this, of desc]
  show ?thesis using Some by (auto simp: check_descriptor_def Let_def)
qed

lemma run_attempt_total: "\<exists>x. run_attempt E C puzzle k = Inr x"
  using check_descriptor_total by (auto simp: run_attempt_def split: sum.splits)

section \<open>The retry loop\<close>

declare attempt_loop.simps [simp del]
declare puzzle_loop.simps [simp del]

text \<open>
  The loop from a state without success: it ends, the counter has advanced to the first
  accepted attempt or to \<open>MAX_ATTEMPTS\<close>, and only an accepted attempt touches the result.
\<close>

lemma attempt_loop_run:
  assumes "\<not> st_success st0" and "st_attempts st0 \<le> MAX_ATTEMPTS"
  shows "\<exists>st. attempt_loop E C puzzle st0 = Inr st \<and>
           st_attempts st0 \<le> st_attempts st \<and> st_attempts st \<le> MAX_ATTEMPTS \<and>
           (\<forall>k. st_attempts st0 < k \<and> k < st_attempts st \<longrightarrow>
                run_attempt E C puzzle k \<noteq> Inr Accepted) \<and>
           (st_success st \<longrightarrow>
              st_attempts st0 < st_attempts st \<and>
              run_attempt E C puzzle (st_attempts st) = Inr Accepted \<and>
              st_result st = (st_result st0)
                \<lparr>tr_successes := s32 (tr_successes (st_result st0) + 1)\<rparr>) \<and>
           (\<not> st_success st \<longrightarrow>
              st_attempts st = MAX_ATTEMPTS \<and> st_result st = st_result st0 \<and>
              (st_attempts st0 < MAX_ATTEMPTS \<longrightarrow>
                 run_attempt E C puzzle MAX_ATTEMPTS \<noteq> Inr Accepted))"
  using assms
proof (induction "nat (MAX_ATTEMPTS - st_attempts st0)" arbitrary: st0)
  case 0
  then have "st_attempts st0 = MAX_ATTEMPTS" by simp
  then have "attempt_loop E C puzzle st0 = Inr st0"
    by (subst attempt_loop.simps) simp
  then show ?case using 0 by auto
next
  case (Suc n)
  then have lt: "st_attempts st0 < MAX_ATTEMPTS" by linarith
  define k1 where "k1 = st_attempts st0 + 1"
  define st1 where "st1 = st0\<lparr>st_attempts := k1,
      st_total_attempts := s32 (st_total_attempts st0 + 1)\<rparr>"
  obtain x where x: "run_attempt E C puzzle k1 = Inr x"
    using run_attempt_total by blast
  show ?case
  proof (cases "x = Accepted")
    case True
    define st2 where "st2 = st1\<lparr>st_success := True,
        st_result := (st_result st1)\<lparr>tr_successes := s32 (tr_successes (st_result st1) + 1)\<rparr>\<rparr>"
    have "attempt_loop E C puzzle st0 = attempt_loop E C puzzle st2"
      using Suc.prems(1) lt x True
      by (subst attempt_loop.simps) (simp add: Let_def k1_def st1_def st2_def)
    also have "\<dots> = Inr st2"
      by (subst attempt_loop.simps) (simp add: st2_def)
    finally have "attempt_loop E C puzzle st0 = Inr st2" .
    moreover have "st_attempts st2 = k1" "st_success st2"
        "st_result st2 = (st_result st0)\<lparr>tr_successes := s32 (tr_successes (st_result st0) + 1)\<rparr>"
      by (simp_all add: st2_def st1_def)
    ultimately show ?thesis
      using x True lt by (auto simp: k1_def)
  next
    case False
    have step: "attempt_loop E C puzzle st0 = attempt_loop E C puzzle st1"
      using Suc.prems(1) lt x False
      by (subst attempt_loop.simps) (simp add: Let_def k1_def st1_def)
    have s1: "\<not> st_success st1" "st_attempts st1 = k1" "st_result st1 = st_result st0"
      using Suc.prems(1) by (simp_all add: st1_def)
    have m: "n = nat (MAX_ATTEMPTS - st_attempts st1)"
      using Suc.hyps(2) s1(2) by (simp add: k1_def)
    have le: "st_attempts st1 \<le> MAX_ATTEMPTS" using lt s1(2) by (simp add: k1_def)
    from Suc.hyps(1)[OF m s1(1) le]
    obtain st where st: "attempt_loop E C puzzle st1 = Inr st"
        "k1 \<le> st_attempts st" "st_attempts st \<le> MAX_ATTEMPTS"
        "\<forall>k. k1 < k \<and> k < st_attempts st \<longrightarrow> run_attempt E C puzzle k \<noteq> Inr Accepted"
        "st_success st \<longrightarrow> k1 < st_attempts st \<and>
           run_attempt E C puzzle (st_attempts st) = Inr Accepted \<and>
           st_result st = (st_result st0)\<lparr>tr_successes := s32 (tr_successes (st_result st0) + 1)\<rparr>"
        "\<not> st_success st \<longrightarrow> st_attempts st = MAX_ATTEMPTS \<and> st_result st = st_result st0 \<and>
           (k1 < MAX_ATTEMPTS \<longrightarrow> run_attempt E C puzzle MAX_ATTEMPTS \<noteq> Inr Accepted)"
      unfolding s1 by blast
    have nk1: "run_attempt E C puzzle k1 \<noteq> Inr Accepted" using x False by simp
    have before: "\<forall>k. st_attempts st0 < k \<and> k < st_attempts st \<longrightarrow>
        run_attempt E C puzzle k \<noteq> Inr Accepted"
    proof (intro allI impI)
      fix k assume k: "st_attempts st0 < k \<and> k < st_attempts st"
      show "run_attempt E C puzzle k \<noteq> Inr Accepted"
      proof (cases "k = k1")
        case True
        then show ?thesis using nk1 by simp
      next
        case False
        then have "k1 < k" using k by (simp add: k1_def)
        then show ?thesis using st(4) k by blast
      qed
    qed
    have last: "run_attempt E C puzzle MAX_ATTEMPTS \<noteq> Inr Accepted" if "\<not> st_success st"
    proof (cases "k1 < MAX_ATTEMPTS")
      case True
      then show ?thesis using st(6) that by blast
    next
      case False
      then have "k1 = MAX_ATTEMPTS" using le s1(2) by simp
      then show ?thesis using nk1 by simp
    qed
    show ?thesis
      using step st(1,2,3,5,6) before last by (auto simp: k1_def)
  qed
qed

text \<open>
  Claim C5.  The retry loop of a sample, started with \<open>attempts = 0\<close>, ends with an
  attempt count between 1 and \<open>MAX_ATTEMPTS\<close>.  With success the count is the index of
  the accepted attempt; without, it is exactly \<open>MAX_ATTEMPTS\<close> and that attempt failed
  too.  Every earlier attempt ended without acceptance, whatever the reason (no random
  state, no descriptor, a failed check), and each of them was counted.
\<close>

theorem retry_loop_bounded:
  "\<exists>st. attempt_loop E C puzzle (fresh_sample t r) = Inr st \<and>
        1 \<le> st_attempts st \<and> st_attempts st \<le> MAX_ATTEMPTS \<and>
        (st_success st \<longrightarrow> run_attempt E C puzzle (st_attempts st) = Inr Accepted) \<and>
        (\<not> st_success st \<longrightarrow>
           st_attempts st = MAX_ATTEMPTS \<and>
           run_attempt E C puzzle MAX_ATTEMPTS \<noteq> Inr Accepted) \<and>
        (\<forall>k. 1 \<le> k \<and> k < st_attempts st \<longrightarrow> run_attempt E C puzzle k \<noteq> Inr Accepted)"
proof -
  have a: "\<not> st_success (fresh_sample t r)"
    and b: "st_attempts (fresh_sample t r) \<le> MAX_ATTEMPTS"
    and c: "st_attempts (fresh_sample t r) = 0"
    by (simp_all add: fresh_sample_def MAX_ATTEMPTS_def)
  from attempt_loop_run[OF a b, of E C puzzle]
  obtain st where st: "attempt_loop E C puzzle (fresh_sample t r) = Inr st"
      "st_attempts st \<le> MAX_ATTEMPTS"
      "\<forall>k. 0 < k \<and> k < st_attempts st \<longrightarrow> run_attempt E C puzzle k \<noteq> Inr Accepted"
      "st_success st \<longrightarrow> 0 < st_attempts st \<and>
         run_attempt E C puzzle (st_attempts st) = Inr Accepted"
      "\<not> st_success st \<longrightarrow> st_attempts st = MAX_ATTEMPTS \<and>
         (0 < MAX_ATTEMPTS \<longrightarrow> run_attempt E C puzzle MAX_ATTEMPTS \<noteq> Inr Accepted)"
    unfolding c by blast
  have pos: "1 \<le> st_attempts st"
    using st(4,5) by (cases "st_success st") (auto simp: MAX_ATTEMPTS_def)
  have "0 < MAX_ATTEMPTS" by (simp add: MAX_ATTEMPTS_def)
  then show ?thesis
    using st pos by (intro exI[of _ st]) auto
qed

theorem retry_loop_bounded_witness:
  "\<exists>st. attempt_loop (constant_generator None) (classik_3 5) 2 (fresh_sample 0 (initial_result (classik_3 5))) = Inr st \<and>
        \<not> st_success st \<and> st_attempts st = 25"
proof -
  have never: "run_attempt (constant_generator None) (classik_3 5) 2 k \<noteq> Inr Accepted" for k
    by (simp add: run_attempt_def generate_def constant_generator_def)
  from retry_loop_bounded[of "constant_generator None" "classik_3 5" 2 0 "initial_result (classik_3 5)"]
  obtain st where st:
      "attempt_loop (constant_generator None) (classik_3 5) 2 (fresh_sample 0 (initial_result (classik_3 5))) = Inr st"
      "st_success st \<longrightarrow>
         run_attempt (constant_generator None) (classik_3 5) 2 (st_attempts st) = Inr Accepted"
      "\<not> st_success st \<longrightarrow> st_attempts st = MAX_ATTEMPTS \<and>
         run_attempt (constant_generator None) (classik_3 5) 2 MAX_ATTEMPTS \<noteq> Inr Accepted"
    by blast
  have "\<not> st_success st" using st(2) never by blast
  then show ?thesis using st(1,3) by (auto simp: MAX_ATTEMPTS_def)
qed

section \<open>The loop over the samples\<close>

lemma sample_accepted_iff:
  "sample_accepted E C puzzle \<longleftrightarrow>
     (\<exists>k. 1 \<le> k \<and> k \<le> MAX_ATTEMPTS \<and> run_attempt E C puzzle k = Inr Accepted)"
  by (auto simp: sample_accepted_def list_ex_iff)

text \<open>The retry loop succeeds exactly on the accepted samples.\<close>

lemma attempt_loop_sample:
  "\<exists>st. attempt_loop E C puzzle (fresh_sample t r) = Inr st \<and>
        (st_success st \<longleftrightarrow> sample_accepted E C puzzle) \<and>
        st_result st =
          (if sample_accepted E C puzzle
           then r\<lparr>tr_successes := s32 (tr_successes r + 1)\<rparr> else r)"
proof -
  have a: "\<not> st_success (fresh_sample t r)"
    and b: "st_attempts (fresh_sample t r) \<le> MAX_ATTEMPTS"
    and c: "st_attempts (fresh_sample t r) = 0" "st_result (fresh_sample t r) = r"
    by (simp_all add: fresh_sample_def MAX_ATTEMPTS_def)
  from attempt_loop_run[OF a b, of E C puzzle]
  obtain st where st: "attempt_loop E C puzzle (fresh_sample t r) = Inr st"
      "st_attempts st \<le> MAX_ATTEMPTS"
      "\<forall>k. 0 < k \<and> k < st_attempts st \<longrightarrow> run_attempt E C puzzle k \<noteq> Inr Accepted"
      "st_success st \<longrightarrow> 0 < st_attempts st \<and>
         run_attempt E C puzzle (st_attempts st) = Inr Accepted \<and>
         st_result st = r\<lparr>tr_successes := s32 (tr_successes r + 1)\<rparr>"
      "\<not> st_success st \<longrightarrow> st_attempts st = MAX_ATTEMPTS \<and> st_result st = r \<and>
         (0 < MAX_ATTEMPTS \<longrightarrow> run_attempt E C puzzle MAX_ATTEMPTS \<noteq> Inr Accepted)"
    unfolding c by blast
  have pos: "0 < MAX_ATTEMPTS" by (simp add: MAX_ATTEMPTS_def)
  have iff: "st_success st \<longleftrightarrow> sample_accepted E C puzzle"
  proof
    assume "st_success st"
    then have "1 \<le> st_attempts st" "run_attempt E C puzzle (st_attempts st) = Inr Accepted"
      using st(4) by auto
    then show "sample_accepted E C puzzle"
      using st(2) unfolding sample_accepted_iff by blast
  next
    assume "sample_accepted E C puzzle"
    then obtain k where k: "1 \<le> k" "k \<le> MAX_ATTEMPTS" "run_attempt E C puzzle k = Inr Accepted"
      unfolding sample_accepted_iff by blast
    show "st_success st"
    proof (rule ccontr)
      assume n: "\<not> st_success st"
      then have e: "st_attempts st = MAX_ATTEMPTS"
          "run_attempt E C puzzle MAX_ATTEMPTS \<noteq> Inr Accepted"
        using st(5) pos by auto
      have "k \<noteq> MAX_ATTEMPTS" using e(2) k(3) by auto
      then have "0 < k \<and> k < st_attempts st" using k(1,2) e(1) by simp
      then show False using st(3) k(3) by blast
    qed
  qed
  show ?thesis using st(1,4,5) iff by (intro exI[of _ st]) auto
qed

lemma filter_count_le: "int (length (filter P [0..p - 1])) \<le> p" if "0 \<le> p" for p :: int
proof -
  have "length (filter P [0..p - 1]) \<le> length [0..p - 1]" by (rule length_filter_le)
  then show ?thesis using that by simp
qed

lemma upto_snoc: "0 \<le> p \<Longrightarrow> [0..p] = [0..p - 1] @ [p]" for p :: int
  by (rule upto_rec2)

text \<open>
  The invariant of the loop over the samples: before sample \<open>puzzle\<close>, the two counters
  hold the numbers of accepted and of exhausted samples among \<open>0, \<dots>, puzzle - 1\<close>.
\<close>

lemma puzzle_loop_run:
  assumes "0 \<le> puzzle" and "puzzle \<le> tc_puzzles C" and "tc_puzzles C \<le> INT_MAX"
    and "tr_successes res = int (length (filter (sample_accepted E C) [0..puzzle - 1]))"
    and "tr_failures res = int (length (filter (\<lambda>p. \<not> sample_accepted E C p) [0..puzzle - 1]))"
  shows "\<exists>t' res'. puzzle_loop E C puzzle (t, res) = Inr (t', res') \<and>
           tr_successes res' = int (length (filter (sample_accepted E C) [0..tc_puzzles C - 1])) \<and>
           tr_failures res' =
             int (length (filter (\<lambda>p. \<not> sample_accepted E C p) [0..tc_puzzles C - 1]))"
  using assms
proof (induction "nat (tc_puzzles C - puzzle)" arbitrary: puzzle t res)
  case 0
  then have e: "puzzle = tc_puzzles C" by simp
  then have "puzzle_loop E C puzzle (t, res) = Inr (t, res)"
    by (subst puzzle_loop.simps) simp
  then show ?case using 0 e by simp
next
  case (Suc n)
  then have lt: "puzzle < tc_puzzles C" by linarith
  obtain st where st: "attempt_loop E C puzzle (fresh_sample t res) = Inr st"
      "st_success st \<longleftrightarrow> sample_accepted E C puzzle"
      "st_result st = (if sample_accepted E C puzzle
         then res\<lparr>tr_successes := s32 (tr_successes res + 1)\<rparr> else res)"
    using attempt_loop_sample by blast
  define res1 where "res1 = finish_sample st"
  have step: "puzzle_loop E C puzzle (t, res) = puzzle_loop E C (puzzle + 1) (st_total_attempts st, res1)"
    using lt st(1) by (subst puzzle_loop.simps) (simp add: res1_def)
  have sb: "tr_successes res \<le> puzzle" "0 \<le> tr_successes res"
    using Suc.prems(4) filter_count_le[OF Suc.prems(1)] by simp_all
  have fb: "tr_failures res \<le> puzzle" "0 \<le> tr_failures res"
    using Suc.prems(5) filter_count_le[OF Suc.prems(1)] by simp_all
  have ws: "s32 (tr_successes res + 1) = tr_successes res + 1"
    using sb lt Suc.prems(3) by (intro s32_id) auto
  have wf: "s32 (tr_failures res + 1) = tr_failures res + 1"
    using fb lt Suc.prems(3) by (intro s32_id) auto
  have "tr_successes res1 = int (length (filter (sample_accepted E C) ([0..puzzle - 1] @ [puzzle])))"
    using st(2,3) ws Suc.prems(4)
    by (simp add: res1_def finish_sample_def Let_def)
  then have s1: "tr_successes res1 =
      int (length (filter (sample_accepted E C) [0..puzzle + 1 - 1]))"
    using upto_snoc[OF Suc.prems(1)] by simp
  have "tr_failures res1 =
      int (length (filter (\<lambda>p. \<not> sample_accepted E C p) ([0..puzzle - 1] @ [puzzle])))"
    using st(2,3) wf Suc.prems(5)
    by (simp add: res1_def finish_sample_def Let_def)
  then have f1: "tr_failures res1 =
      int (length (filter (\<lambda>p. \<not> sample_accepted E C p) [0..puzzle + 1 - 1]))"
    using upto_snoc[OF Suc.prems(1)] by simp
  have m: "n = nat (tc_puzzles C - (puzzle + 1))" using Suc.hyps(2) by simp
  have "0 \<le> puzzle + 1" "puzzle + 1 \<le> tc_puzzles C"
    using Suc.prems(1) lt by simp_all
  from Suc.hyps(1)[OF m this Suc.prems(3) s1 f1, of "st_total_attempts st"]
  show ?case using step by simp
qed

lemma filter_partition_length:
  "length (filter P xs) + length (filter (\<lambda>x. \<not> P x) xs) = length xs"
  by (induction xs) auto

text \<open>
  Claim C6.  For a puzzle count \<open>p \<ge> 0\<close> (a C \<open>int\<close>) the function returns, every one
  of the samples \<open>0, \<dots>, p - 1\<close> is counted exactly once, an exhausted sample as one
  failure and an accepted one as one success, and \<open>successes + failures = p\<close>.
\<close>

theorem test_combination_counts_every_sample:
  assumes "0 \<le> tc_puzzles C" and "tc_puzzles C \<le> INT_MAX"
  shows "\<exists>res. test_combination E C = Inr res \<and>
           tr_successes res + tr_failures res = tc_puzzles C \<and>
           tr_successes res = int (length (filter (sample_accepted E C) [0..tc_puzzles C - 1])) \<and>
           tr_failures res =
             int (length (filter (\<lambda>p. \<not> sample_accepted E C p) [0..tc_puzzles C - 1]))"
proof -
  have i1: "tr_successes (initial_result C) = int (length (filter (sample_accepted E C) [0..0 - 1]))"
    and i2: "tr_failures (initial_result C) =
      int (length (filter (\<lambda>p. \<not> sample_accepted E C p) [0..0 - 1]))"
    by (simp_all add: initial_result_def)
  have z: "(0::int) \<le> 0" by simp
  from puzzle_loop_run[OF z assms(1,2) i1 i2, of 0]
  obtain t' res' where r: "puzzle_loop E C 0 (0, initial_result C) = Inr (t', res')"
      "tr_successes res' = int (length (filter (sample_accepted E C) [0..tc_puzzles C - 1]))"
      "tr_failures res' =
         int (length (filter (\<lambda>p. \<not> sample_accepted E C p) [0..tc_puzzles C - 1]))"
    by blast
  have "test_combination E C = Inr res'"
    using r(1) by (simp add: test_combination_def)
  moreover have "tr_successes res' + tr_failures res' = tc_puzzles C"
    using r(2,3) filter_partition_length[of "sample_accepted E C" "[0..tc_puzzles C - 1]"] assms(1)
    by simp
  ultimately show ?thesis using r(2,3) by blast
qed

theorem test_combination_counts_witness:
  "\<exists>res. test_combination (constant_generator None) (classik_3 5) = Inr res \<and>
          tr_successes res = 0 \<and> tr_failures res = 5"
proof -
  have h: "0 \<le> tc_puzzles (classik_3 5)" "tc_puzzles (classik_3 5) \<le> INT_MAX"
    by (simp_all add: classik_3_def INT_MAX_def)
  have never: "\<not> sample_accepted (constant_generator None) (classik_3 5) p" for p
    by (simp add: sample_accepted_iff run_attempt_def generate_def constant_generator_def)
  from test_combination_counts_every_sample[OF h, of "constant_generator None"]
  obtain res where r: "test_combination (constant_generator None) (classik_3 5) = Inr res"
      "tr_successes res + tr_failures res = tc_puzzles (classik_3 5)"
      "tr_successes res =
         int (length (filter (sample_accepted (constant_generator None) (classik_3 5))
           [0..tc_puzzles (classik_3 5) - 1]))"
    by blast
  have "tr_successes res = 0" using r(3) never by simp
  moreover have "tr_failures res = 5" using r(2) \<open>tr_successes res = 0\<close> by (simp add: classik_3_def)
  ultimately show ?thesis using r(1) by blast
qed

section \<open>What an accepted attempt has passed\<close>

lemma tally_of_tally_max:
  "tally_max cells roots counts mx = Inr (cs, m) \<Longrightarrow> tally cells roots counts = Inr cs"
proof (induction cells arbitrary: counts mx)
  case Nil
  then show ?case by simp
next
  case (Cons i cells)
  then show ?case
    by (simp add: Let_def split: if_splits)
qed

lemma mul_scan_accepts:
  "mul_scan cells roots ops counts max_mul = Inr True \<Longrightarrow>
     \<forall>i\<in>set cells. roots ! i = int i \<and> ops ! i = CHR ''m'' \<longrightarrow> counts ! i \<le> max_mul"
  by (induction cells) (auto split: if_splits)

lemma cage_sizes_accepts:
  assumes "length roots = nat a" and "\<forall>x\<in>set roots. 0 \<le> x \<and> x < a" and "a \<le> INT_MAX"
    and "cage_sizes_within_limit roots a max_size max_seen = Inr (True, seen)"
  shows "\<forall>r. cage_size roots a r \<le> max_size"
proof -
  obtain cs m where res: "tally_max [0..<nat a] roots (replicate (nat a) 0) 0 = Inr (cs, m)"
      and bound: "\<forall>r. cage_size roots a r \<le> m"
    using tally_max_cage_sizes[OF assms(1,2,3)] by blast
  have "m \<le> max_size"
    using assms(4) res by (simp add: cage_sizes_within_limit_def)
  then show ?thesis using bound by (meson order_trans)
qed

lemma mult_cages_accepts:
  assumes "length roots = nat a" and "\<forall>x\<in>set roots. 0 \<le> x \<and> x < a" and "a \<le> INT_MAX"
    and "mult_cages_within_limit roots ops a max_mul = Inr True"
  shows "\<forall>i<nat a. roots ! i = int i \<and> ops ! i = CHR ''m'' \<longrightarrow>
           cage_size roots a (int i) \<le> max_mul"
proof -
  obtain cs m where res: "tally_max [0..<nat a] roots (replicate (nat a) 0) 0 = Inr (cs, m)"
      and sizes: "\<forall>q<nat a. cs ! q = cage_size roots a (int q)"
    using tally_max_cage_sizes[OF assms(1,2,3)] by blast
  have "tally [0..<nat a] roots (replicate (nat a) 0) = Inr cs"
    using res by (rule tally_of_tally_max)
  then have "mul_scan [0..<nat a] roots ops cs max_mul = Inr True"
    using assms(4) by (simp add: mult_cages_within_limit_def)
  from mul_scan_accepts[OF this] sizes show ?thesis by simp
qed

text \<open>
  The checks that \<open>check_descriptor\<close> has made when it accepts: the clue check always; with
  a cage cap, the root array parsed and no cage is larger than the cap; with a
  multiplication cap, the operators parsed and no multiplication cage is larger than it.
\<close>

lemma check_descriptor_accepted:
  assumes "check_descriptor desc C = Inr Accepted"
  shows "clue_values_within_cap desc \<and>
         (0 < tc_max_cage_size C \<longrightarrow>
            (\<exists>roots seen. parse_root_indices desc (tc_size C) = Some roots \<and>
               cage_sizes_within_limit roots (s32 (tc_size C * tc_size C))
                 (tc_max_cage_size C) (Some 0) = Inr (True, seen) \<and>
               (\<forall>r. cage_size roots (s32 (tc_size C * tc_size C)) r \<le> tc_max_cage_size C))) \<and>
         (0 < tc_max_mul_cells C \<longrightarrow>
            (\<exists>roots ops. parse_root_indices desc (tc_size C) = Some roots \<and>
               parse_ops desc (tc_size C) roots
                 (replicate (nat (s32 (tc_size C * tc_size C))) (CHR 0x00)) = Inr (Some ops) \<and>
               mult_cages_within_limit roots ops (s32 (tc_size C * tc_size C))
                 (tc_max_mul_cells C) = Inr True \<and>
               (\<forall>i<nat (s32 (tc_size C * tc_size C)).
                  roots ! i = int i \<and> ops ! i = CHR ''m'' \<longrightarrow>
                  cage_size roots (s32 (tc_size C * tc_size C)) (int i) \<le> tc_max_mul_cells C)))"
proof -
  define a where "a = s32 (tc_size C * tc_size C)"
  define ops0 where "ops0 = replicate (nat a) (CHR 0x00)"
  have clue: "clue_values_within_cap desc"
    using assms by (auto simp: check_descriptor_def split: if_splits)
  have a_le: "a \<le> INT_MAX" unfolding a_def by (rule s32_le_INT_MAX)
  have cage: "\<exists>roots seen. parse_root_indices desc (tc_size C) = Some roots \<and>
      cage_sizes_within_limit roots a (tc_max_cage_size C) (Some 0) = Inr (True, seen) \<and>
      (\<forall>r. cage_size roots a r \<le> tc_max_cage_size C)" if on: "0 < tc_max_cage_size C"
  proof -
    from assms clue on obtain roots where
      roots: "parse_root_indices desc (tc_size C) = Some roots"
      and cc: "cage_checks desc C roots ops0 = Inr Accepted"
      by (auto simp: check_descriptor_def Let_def a_def ops0_def split: option.splits)
    from cc on obtain seen where
      cs: "cage_sizes_within_limit roots a (tc_max_cage_size C) (Some 0) = Inr (True, seen)"
      by (auto simp: cage_checks_def a_def split: sum.splits if_splits)
    have r: "length roots = nat a" "\<forall>x\<in>set roots. 0 \<le> x \<and> x < a"
      using parse_root_indices_range[OF roots] by (simp_all add: a_def)
    from cage_sizes_accepts[OF r a_le cs] roots cs show ?thesis by blast
  qed
  have mul: "\<exists>roots ops. parse_root_indices desc (tc_size C) = Some roots \<and>
      parse_ops desc (tc_size C) roots ops0 = Inr (Some ops) \<and>
      mult_cages_within_limit roots ops a (tc_max_mul_cells C) = Inr True \<and>
      (\<forall>i<nat a. roots ! i = int i \<and> ops ! i = CHR ''m'' \<longrightarrow>
         cage_size roots a (int i) \<le> tc_max_mul_cells C)" if on: "0 < tc_max_mul_cells C"
  proof -
    from assms clue on obtain roots where
      roots: "parse_root_indices desc (tc_size C) = Some roots"
      and cc: "cage_checks desc C roots ops0 = Inr Accepted"
      by (auto simp: check_descriptor_def Let_def a_def ops0_def split: option.splits)
    from cc have mc: "mul_checks desc C roots ops0 = Inr Accepted"
      by (auto simp: cage_checks_def split: sum.splits if_splits)
    from mc on obtain ops where
      po: "parse_ops desc (tc_size C) roots ops0 = Inr (Some ops)"
      and ml: "mult_cages_within_limit roots ops a (tc_max_mul_cells C) = Inr True"
      by (auto simp: mul_checks_def a_def split: sum.splits option.splits if_splits)
    have r: "length roots = nat a" "\<forall>x\<in>set roots. 0 \<le> x \<and> x < a"
      using parse_root_indices_range[OF roots] by (simp_all add: a_def)
    from mult_cages_accepts[OF r a_le ml] roots po ml show ?thesis by blast
  qed
  show ?thesis
    using clue cage mul unfolding a_def ops0_def by blast
qed

lemma generate_exits:
  "generate E C puzzle k = Inl x \<Longrightarrow> x = Random_Failed \<or> x = No_Descriptor"
  by (auto simp: generate_def split: option.splits)

text \<open>
  Claim C1.  When the retry loop of a sample ends with \<open>success\<close> (the sample is counted
  in \<open>successes\<close>), the generator returned a descriptor in the last attempt, and that
  descriptor passed \<open>clue_values_within_cap\<close>; with \<open>max_cage_size > 0\<close> it also passed
  \<open>cage_sizes_within_limit\<close>, so that no cage has more than \<open>max_cage_size\<close> cells; with
  \<open>max_mul_cells > 0\<close> it also passed \<open>mult_cages_within_limit\<close>, so that no cage whose
  operator is \<open>m\<close> has more than \<open>max_mul_cells\<close> cells.
\<close>

theorem accepted_sample_within_caps:
  assumes "attempt_loop E C puzzle (fresh_sample t r) = Inr st" and "st_success st"
  shows "\<exists>desc. generate E C puzzle (st_attempts st) = Inr desc \<and>
           clue_values_within_cap desc \<and>
           (0 < tc_max_cage_size C \<longrightarrow>
              (\<exists>roots seen. parse_root_indices desc (tc_size C) = Some roots \<and>
                 cage_sizes_within_limit roots (s32 (tc_size C * tc_size C))
                   (tc_max_cage_size C) (Some 0) = Inr (True, seen) \<and>
                 (\<forall>r. cage_size roots (s32 (tc_size C * tc_size C)) r \<le> tc_max_cage_size C))) \<and>
           (0 < tc_max_mul_cells C \<longrightarrow>
              (\<exists>roots ops. parse_root_indices desc (tc_size C) = Some roots \<and>
                 parse_ops desc (tc_size C) roots
                   (replicate (nat (s32 (tc_size C * tc_size C))) (CHR 0x00)) = Inr (Some ops) \<and>
                 mult_cages_within_limit roots ops (s32 (tc_size C * tc_size C))
                   (tc_max_mul_cells C) = Inr True \<and>
                 (\<forall>i<nat (s32 (tc_size C * tc_size C)).
                    roots ! i = int i \<and> ops ! i = CHR ''m'' \<longrightarrow>
                    cage_size roots (s32 (tc_size C * tc_size C)) (int i) \<le> tc_max_mul_cells C)))"
proof -
  have a: "\<not> st_success (fresh_sample t r)"
    and b: "st_attempts (fresh_sample t r) \<le> MAX_ATTEMPTS"
    by (simp_all add: fresh_sample_def MAX_ATTEMPTS_def)
  from attempt_loop_run[OF a b, of E C puzzle] assms
  have acc: "run_attempt E C puzzle (st_attempts st) = Inr Accepted" by auto
  then obtain desc where d: "generate E C puzzle (st_attempts st) = Inr desc"
      "check_descriptor desc C = Inr Accepted"
    by (auto simp: run_attempt_def split: sum.splits dest: generate_exits)
  from check_descriptor_accepted[OF d(2)] d(1) show ?thesis by blast
qed

theorem accepted_sample_witness:
  "attempt_loop (constant_generator (Some ''0,0,0,3,3,3,6,6,6;a00006,s00002,m00024''))
     (classik_3 5) 0 (fresh_sample 0 (initial_result (classik_3 5)))
   = Inr \<lparr>st_success = True, st_attempts = 1, st_total_attempts = 1,
          st_result = (initial_result (classik_3 5))\<lparr>tr_successes := 1\<rparr>\<rparr> \<and>
   (\<exists>desc. generate (constant_generator (Some ''0,0,0,3,3,3,6,6,6;a00006,s00002,m00024''))
              (classik_3 5) 0 1 = Inr desc \<and>
            clue_values_within_cap desc)"
proof -
  let ?E = "constant_generator (Some ''0,0,0,3,3,3,6,6,6;a00006,s00002,m00024'')"
  let ?st = "\<lparr>st_success = True, st_attempts = 1, st_total_attempts = 1,
          st_result = (initial_result (classik_3 5))\<lparr>tr_successes := 1\<rparr>\<rparr>"
  have chk: "check_descriptor ''0,0,0,3,3,3,6,6,6;a00006,s00002,m00024''
      \<lparr>tc_size = 3, tc_diff = 0, tc_profile = 0, tc_max_cage_size = 6,
       tc_max_mul_cells = 10, tc_puzzles = 5, tc_base_seed = 1000\<rparr> = Inr Accepted"
    by code_simp
  have acc: "run_attempt ?E (classik_3 5) 0 1 = Inr Accepted"
    using chk by (simp add: run_attempt_def generate_def constant_generator_def classik_3_def)
  have "attempt_loop ?E (classik_3 5) 0 (fresh_sample 0 (initial_result (classik_3 5)))
      = attempt_loop ?E (classik_3 5) 0 ?st"
    using acc
    by (subst attempt_loop.simps)
       (simp add: fresh_sample_def MAX_ATTEMPTS_def Let_def s32_def initial_result_def)
  also have "\<dots> = Inr ?st"
    by (subst attempt_loop.simps) simp
  finally have run: "attempt_loop ?E (classik_3 5) 0 (fresh_sample 0 (initial_result (classik_3 5)))
      = Inr ?st" .
  have s: "st_success ?st" by simp
  from accepted_sample_within_caps[OF run s] run show ?thesis by auto
qed

section \<open>The root array of an accepted descriptor\<close>

text \<open>
  Claim C4 does not hold as stated: the checks never compare \<open>roots[roots[i]]\<close> with
  \<open>roots[i]\<close>.  The descriptor below is accepted for the 3 by 3 grid with both caps
  enabled, and its root array sends cell 0 to cell 1 and cell 1 to cell 0.
\<close>

theorem accepted_roots_not_idempotent:
  "run_attempt (constant_generator (Some ''1,0,2,2,2,2,2,2,1;a00006'')) (classik_3 5) 0 1
     = Inr Accepted \<and>
   parse_root_indices ''1,0,2,2,2,2,2,2,1;a00006'' 3 = Some [1, 0, 2, 2, 2, 2, 2, 2, 1] \<and>
   \<not> roots_idempotent [1, 0, 2, 2, 2, 2, 2, 2, 1]"
proof -
  have chk: "check_descriptor ''1,0,2,2,2,2,2,2,1;a00006''
      \<lparr>tc_size = 3, tc_diff = 0, tc_profile = 0, tc_max_cage_size = 6,
       tc_max_mul_cells = 10, tc_puzzles = 5, tc_base_seed = 1000\<rparr> = Inr Accepted"
    by code_simp
  have acc: "run_attempt (constant_generator (Some ''1,0,2,2,2,2,2,2,1;a00006'')) (classik_3 5) 0 1
      = Inr Accepted"
    using chk by (simp add: run_attempt_def generate_def constant_generator_def classik_3_def)
  have prs: "parse_root_indices ''1,0,2,2,2,2,2,2,1;a00006'' 3 = Some [1, 0, 2, 2, 2, 2, 2, 2, 1]"
    by code_simp
  have idem: "\<not> roots_idempotent [1, 0, 2, 2, 2, 2, 2, 2, 1]"
    by (simp add: roots_idempotent_def)
  show ?thesis using acc prs idem by blast
qed

text \<open>
  Claim C4 as amended.  A descriptor that the checks accept with a cage cap or a
  multiplication cap enabled has a root array of \<open>a = w * w\<close> entries, each of them a cell
  index in \<open>[0, a)\<close>, so that \<open>roots[roots[i]]\<close> is an entry of the array.  Whether the
  array is idempotent is not checked.
\<close>

theorem accepted_roots_in_range:
  assumes "check_descriptor desc C = Inr Accepted"
    and "0 < tc_max_cage_size C \<or> 0 < tc_max_mul_cells C"
  shows "\<exists>roots. parse_root_indices desc (tc_size C) = Some roots \<and>
           length roots = nat (s32 (tc_size C * tc_size C)) \<and>
           (\<forall>i<length roots. 0 \<le> roots ! i \<and> roots ! i < s32 (tc_size C * tc_size C) \<and>
                              nat (roots ! i) < length roots)"
proof -
  from assms obtain roots where roots: "parse_root_indices desc (tc_size C) = Some roots"
    by (auto simp: check_descriptor_def Let_def split: if_splits option.splits)
  have r: "length roots = nat (s32 (tc_size C * tc_size C))"
      "\<forall>x\<in>set roots. 0 \<le> x \<and> x < s32 (tc_size C * tc_size C)"
    using parse_root_indices_range[OF roots] by simp_all
  have "0 \<le> roots ! i \<and> roots ! i < s32 (tc_size C * tc_size C) \<and> nat (roots ! i) < length roots"
    if "i < length roots" for i
  proof -
    have "roots ! i \<in> set roots" using that by simp
    then have "0 \<le> roots ! i" "roots ! i < s32 (tc_size C * tc_size C)" using r(2) by auto
    then show ?thesis using r(1) by auto
  qed
  then show ?thesis using roots r(1) by blast
qed

theorem accepted_roots_in_range_witness:
  "\<exists>roots. parse_root_indices ''1,0,2,2,2,2,2,2,1;a00006'' (tc_size (classik_3 5)) = Some roots \<and>
           length roots = 9 \<and> nat (roots ! 0) < length roots"
proof -
  have chk: "check_descriptor ''1,0,2,2,2,2,2,2,1;a00006''
      \<lparr>tc_size = 3, tc_diff = 0, tc_profile = 0, tc_max_cage_size = 6,
       tc_max_mul_cells = 10, tc_puzzles = 5, tc_base_seed = 1000\<rparr> = Inr Accepted"
    by code_simp
  then have h1: "check_descriptor ''1,0,2,2,2,2,2,2,1;a00006'' (classik_3 5) = Inr Accepted"
    by (simp add: classik_3_def)
  have h2: "0 < tc_max_cage_size (classik_3 5) \<or> 0 < tc_max_mul_cells (classik_3 5)"
    by (simp add: classik_3_def)
  from accepted_roots_in_range[OF h1 h2]
  obtain roots where r:
      "parse_root_indices ''1,0,2,2,2,2,2,2,1;a00006'' (tc_size (classik_3 5)) = Some roots"
      "length roots = nat (s32 (tc_size (classik_3 5) * tc_size (classik_3 5)))"
      "\<forall>i<length roots. 0 \<le> roots ! i \<and>
         roots ! i < s32 (tc_size (classik_3 5) * tc_size (classik_3 5)) \<and>
         nat (roots ! i) < length roots"
    by blast
  have len: "length roots = 9" using r(2) by (simp add: classik_3_def s32_def)
  then have "nat (roots ! 0) < length roots" using r(3) by auto
  then show ?thesis using r(1) len by blast
qed

section \<open>The inputs of the generator\<close>






text \<open>The entries of the list are the arguments with which \<open>generate\<close> calls the collaborators.\<close>

lemma generate_by_call:
  "generate E C puzzle k =
     (case random_new E (fst (attempt_call E C puzzle k)) of
        None \<Rightarrow> Inl Random_Failed
      | Some rs \<Rightarrow>
          (case snd (attempt_call E C puzzle k) of
             None \<Rightarrow> Inl Random_Failed
           | Some params \<Rightarrow>
               (case new_game_desc E params rs of
                  None \<Rightarrow> Inl No_Descriptor
                | Some desc \<Rightarrow> Inr desc)))"
  by (simp add: generate_def attempt_call_def split: option.splits)




section \<open>Descriptors that the decoding rejects, and one that it does not\<close>

text \<open>Without a semicolon all three functions return \<open>false\<close>.\<close>

lemma missing_delimiter_rejected:
  assumes "CHR '';'' \<notin> set desc"
  shows "parse_root_indices desc w = None \<and> parse_ops desc w roots ops = Inr None \<and>
         \<not> clue_values_within_cap desc"
  using assms
  by (simp add: parse_root_indices_def parse_ops_def clue_values_within_cap_def
      clue_values_exit_def strchr_semi_def)

text \<open>A cell whose entry does not start with a digit is rejected.\<close>

lemma root_entry_needs_digit:
  assumes "p = [] \<or> \<not> isdigit (hd p)"
  shows "roots_loop (Suc n) a p = None"
proof -
  have "read_digits p 0 0 = (0, 0, p)"
    using assms by (cases p) auto
  then show ?thesis by simp
qed

text \<open>An entry of a cell that is not the last must be followed by a comma.\<close>

lemma root_entry_needs_comma:
  assumes "read_digits p 0 0 = (val, digits, q)" and "q = [] \<or> hd q \<noteq> CHR '',''"
  shows "roots_loop (Suc (Suc n)) a p = None"
  using assms by (cases q) auto

text \<open>\<open>parse_ops\<close> accepts a value field only if it consists of five digits.\<close>

lemma five_digits_Some:
  "five_digits n p = Some q \<Longrightarrow> \<exists>ds. length ds = n \<and> (\<forall>c\<in>set ds. isdigit c) \<and> p = ds @ q"
proof (induction n p rule: five_digits.induct)
  case (1 p)
  then show ?case by simp
next
  case (2 d)
  then show ?case by simp
next
  case (3 d c p)
  then have c: "isdigit c" and rec: "five_digits d p = Some q"
    by (auto split: if_splits)
  from 3(1)[OF c rec] obtain ds where "length ds = d" "\<forall>c\<in>set ds. isdigit c" "p = ds @ q"
    by blast
  then have "length (c # ds) = Suc d \<and> (\<forall>x\<in>set (c # ds). isdigit x) \<and> c # p = (c # ds) @ q"
    using c by simp
  then show ?case by blast
qed

text \<open>
  \<open>clue_values_within_cap\<close> accepts a clue entry only if it is a letter and five more
  characters, followed by the end of the string or by a comma.
\<close>

lemma clue_entry_accepted:
  assumes "clue_scan (op # p) = Clues_Ok"
  shows "isalpha op \<and> 5 \<le> length p \<and>
         (drop 5 p = [] \<or> (\<exists>p'. drop 5 p = CHR '','' # p' \<and> clue_scan p' = Clues_Ok))"
  using assms by (auto split: if_splits list.splits)

text \<open>
  Claim C3 asks that a root index outside \<open>[0, w\<^sup>2)\<close> makes the decoding return \<open>false\<close>.
  The digits of a root are accumulated in an \<open>int\<close> by \<open>val = val * 10 + (*p - '0')\<close>, and
  the test \<open>val < 0\<close> only catches the runs that overflow to a negative number.  The root
  4294967296 overflows to 0: \<open>parse_root_indices\<close> returns \<open>true\<close> with \<open>roots[0] = 0\<close>,
  and the whole descriptor is accepted.
\<close>

theorem overflowing_root_index_accepted:
  "parse_root_indices ''4294967296,0,0,3,3,3,6,6,6;a00006,s00002,m00024'' 3
     = Some [0, 0, 0, 3, 3, 3, 6, 6, 6] \<and>
   check_descriptor ''4294967296,0,0,3,3,3,6,6,6;a00006,s00002,m00024'' (classik_3 5)
     = Inr Accepted"
proof -
  have a: "parse_root_indices ''4294967296,0,0,3,3,3,6,6,6;a00006,s00002,m00024'' 3
      = Some [0, 0, 0, 3, 3, 3, 6, 6, 6]"
    by code_simp
  have "check_descriptor ''4294967296,0,0,3,3,3,6,6,6;a00006,s00002,m00024''
      \<lparr>tc_size = 3, tc_diff = 0, tc_profile = 0, tc_max_cage_size = 6,
       tc_max_mul_cells = 10, tc_puzzles = 5, tc_base_seed = 1000\<rparr> = Inr Accepted"
    by code_simp
  then have b: "check_descriptor ''4294967296,0,0,3,3,3,6,6,6;a00006,s00002,m00024''
      (classik_3 5) = Inr Accepted"
    by (simp add: classik_3_def)
  show ?thesis using a b by blast
qed

section \<open>The solver on the diamond network\<close>

text \<open>
  Claim C9.  On the diamond network of \<open>test_diamond\<close> (four vertices; edges
  \<open>0 \<rightarrow> 1\<close>, \<open>0 \<rightarrow> 2\<close>, \<open>1 \<rightarrow> 3\<close>, \<open>2 \<rightarrow> 3\<close> of capacity 10 and \<open>1 \<rightarrow> 2\<close> of capacity 1) the
  solver, called with source 0 and sink 3, ends and returns the flow value 20; the cross
  edge carries no flow.
\<close>

theorem maxflow_diamond:
  "maxflow_with_scratch diamond 0 3 = Some (20, [10, 10, 0, 10, 10])"
  by code_simp

end
